theory Spec2Isabelle
  imports Complex_Main "HOL-Library.Sublist" "HOL-Library.Multiset"
begin

section \<open>MiniGit: snapshot store, search catalog and autocomplete trie\<close>

text \<open>
  A shallow embedding of \<^verbatim>\<open>minigit.c\<close>, \<^verbatim>\<open>search_engine.c\<close> and
  \<^verbatim>\<open>autocomplete.c\<close>. Conventions:
  \<^item> a C string is a \<^typ>\<open>string\<close> without its terminating NUL; copying into a buffer of
    \<open>n\<close> bytes with the terminator forced keeps \<open>take (n - 1)\<close> of the source;
  \<^item> a C \<^verbatim>\<open>int\<close> is an \<^typ>\<open>int\<close>; \<^verbatim>\<open>++x\<close> on a counter of the program's state is
    \<open>int_incr\<close>, which writes the two's-complement wrap-around at \<open>INT_MAX\<close> out (C
    leaves the overflow undefined); the counters local to \<^verbatim>\<open>search_and_rank\<close> stay
    below the length of a buffer or the 16 tokens and use \<open>+\<close>;
  \<^item> \<^verbatim>\<open>float\<close> and \<^verbatim>\<open>double\<close> values are \<^typ>\<open>real\<close>: the order and the algebra of
    the scores are modelled, the rounding of each operation is not;
  \<^item> the process-wide globals are fields of explicit state records, passed in and
    returned;
  \<^item> what a call reads from outside the program (file contents, the current directory,
    the clock, the order in which \<^verbatim>\<open>readdir\<close> lists a directory) is a record \<open>env\<close>
    given to the call;
  \<^item> console output is modelled for the commands of the store and for
    \<^verbatim>\<open>search_and_rank\<close>, as the list of lines printed; the debug lines of the other
    functions are left out;
  \<^item> \<^verbatim>\<open>malloc\<close> and \<^verbatim>\<open>calloc\<close> are taken to succeed, and the engines to be
    initialised, as \<^verbatim>\<open>main\<close> does before the first command;
  \<^item> \<^verbatim>\<open>qsort\<close> belongs to the C library: the functions that call it take the sorting
    routine as a parameter, and the theorems assume only what the C standard promises
    of it.
\<close>

subsection \<open>Limits\<close>

definition MAX_FILE_CONTENT :: nat where "MAX_FILE_CONTENT = 50000"
definition MAX_FILENAME :: nat where "MAX_FILENAME = 200"
definition MAX_FILES_PER_COMMIT :: int where "MAX_FILES_PER_COMMIT = 50"
definition MAX_DOCUMENTS :: int where "MAX_DOCUMENTS = 100"

definition INT_MAX :: int where "INT_MAX = 2147483647"
definition INT_MIN :: int where "INT_MIN = - 2147483648"

definition int_incr :: "int \<Rightarrow> int" where
  "int_incr x = (if x = INT_MAX then INT_MIN else x + 1)"

text \<open>
  The headers \<^verbatim>\<open>search_engine.h\<close> and \<^verbatim>\<open>autocomplete.h\<close> fix the buffer sizes below.
  The functions are modelled for any values of them.
\<close>

record limits =
  MAX_QUERY_LENGTH :: nat
  MAX_TITLE_LENGTH :: nat
  MAX_DESCRIPTION_LENGTH :: nat
  MAX_SUGGESTION_LENGTH :: nat
  sizeof_title :: nat
  sizeof_description :: nat
  sizeof_url :: nat
  MAX_SEARCH_RESULTS :: int
  MAX_AUTOCOMPLETE_SUGGESTIONS :: int

subsection \<open>The C library on strings\<close>

text \<open>Character classes of the "C" locale: only ASCII letters and digits count.\<close>

definition c_isupper :: "char \<Rightarrow> bool" where
  "c_isupper c = (65 \<le> (of_char c :: nat) \<and> (of_char c :: nat) \<le> 90)"

definition c_islower :: "char \<Rightarrow> bool" where
  "c_islower c = (97 \<le> (of_char c :: nat) \<and> (of_char c :: nat) \<le> 122)"

definition c_isdigit :: "char \<Rightarrow> bool" where
  "c_isdigit c = (48 \<le> (of_char c :: nat) \<and> (of_char c :: nat) \<le> 57)"

definition c_isalnum :: "char \<Rightarrow> bool" where
  "c_isalnum c = (c_isdigit c \<or> c_isupper c \<or> c_islower c)"

definition c_tolower :: "char \<Rightarrow> char" where
  "c_tolower c = (if c_isupper c then char_of ((of_char c :: nat) + 32) else c)"

text \<open>\<^verbatim>\<open>strncpy(dst, src, n - 1); dst[n - 1] = 0\<close> and \<^verbatim>\<open>snprintf(dst, n, "%s", src)\<close>.\<close>

definition copy_trunc :: "nat \<Rightarrow> string \<Rightarrow> string" where
  "copy_trunc n src = take (n - 1) src"

text \<open>
  \<^verbatim>\<open>strstr(text, pat)\<close>: the suffix of the text that starts at the first occurrence of
  the pattern, or \<open>None\<close> for NULL.
\<close>

fun strstr :: "string \<Rightarrow> string \<Rightarrow> string option" where
  "strstr [] pat = (if pat = [] then Some [] else None)"
| "strstr (c # cs) pat = (if prefix pat (c # cs) then Some (c # cs) else strstr cs pat)"

text \<open>
  The tokens \<^verbatim>\<open>strtok(s, " ")\<close> and its continuation calls return, in order: the
  maximal runs of characters other than the space. The second argument is the token
  being read.
\<close>

fun strtok_spaces :: "string \<Rightarrow> string \<Rightarrow> string list" where
  "strtok_spaces [] cur = (if cur = [] then [] else [cur])"
| "strtok_spaces (c # cs) cur =
     (if c = CHR '' '' then (if cur = [] then strtok_spaces cs [] else cur # strtok_spaces cs [])
      else strtok_spaces cs (cur @ [c]))"

text \<open>
  The pieces successive \<^verbatim>\<open>fgets(line, n, fp)\<close> calls return: each ends after a
  newline or after \<open>n - 1\<close> characters.
\<close>

fun fgets_lines :: "nat \<Rightarrow> string \<Rightarrow> string \<Rightarrow> string list" where
  "fgets_lines n [] cur = (if cur = [] then [] else [cur])"
| "fgets_lines n (c # cs) cur =
     (if c = CHR 0x0A \<or> Suc (length cur) \<ge> n - 1 then (cur @ [c]) # fgets_lines n cs []
      else fgets_lines n cs (cur @ [c]))"

text \<open>\<^verbatim>\<open>printf("%d", n)\<close>.\<close>

fun show_nat :: "nat \<Rightarrow> string" where
  "show_nat n = (if n < 10 then [char_of (48 + n)]
                 else show_nat (n div 10) @ [char_of (48 + n mod 10)])"

definition show_int :: "int \<Rightarrow> string" where
  "show_int i = (if i < 0 then CHR ''-'' # show_nat (nat (- i)) else show_nat (nat i))"

subsection \<open>What a call reads from outside the program\<close>

record env =
  fs :: "string \<Rightarrow> string option"
  cwd :: string
  now :: int
  readdir_names :: "string list"
  malloc_bytes :: string

text \<open>
  \<open>fs e path\<close> is the text \<^verbatim>\<open>fopen(path, "r")\<close> would read, \<open>None\<close> when the file
  cannot be opened; \<open>now e\<close> is \<^verbatim>\<open>time(NULL)\<close>; \<open>readdir_names e\<close> are the names
  \<^verbatim>\<open>readdir\<close> returns for the working directory, in its order; \<open>malloc_bytes e\<close> is
  the C string that memory from \<^verbatim>\<open>malloc\<close> reads as where the program has not written
  it (\<open>[]\<close> when the first such byte is NUL).
\<close>

text \<open>
  \<^verbatim>\<open>strncpy(dst, src, n)\<close> with no terminator forced: a source of \<open>n\<close> characters or more
  fills the \<open>n\<close> bytes and leaves the string at \<open>dst\<close> running on into what follows them
  in memory. \<open>unwritten_then\<close> is that continuation when one byte the program never wrote
  comes first.
\<close>

definition strncpy_open :: "nat \<Rightarrow> string \<Rightarrow> string \<Rightarrow> string" where
  "strncpy_open n src following = (if length src < n then src else take n src @ following)"

definition unwritten_then :: "env \<Rightarrow> string \<Rightarrow> string" where
  "unwritten_then e following = (case malloc_bytes e of [] \<Rightarrow> [] | b # bs \<Rightarrow> b # following)"

subsection \<open>search\_engine.c: the catalog\<close>

record search_result_t =
  title :: string
  description :: string
  url :: string
  document_id :: int
  relevance_score :: real
  timestamp :: int
  click_count :: int
  authority_score :: real

record search_config_t =
  relevance_threshold :: real
  suggestion_threshold :: real
  max_results :: int
  max_suggestions :: int

record search_engine =
  g_search_config :: search_config_t
  g_search_engine_initialized :: bool
  g_total_documents :: int
  g_total_queries :: int
  g_avg_response_time :: real
  g_documents :: "search_result_t list"
  g_document_count :: int

text \<open>\<^verbatim>\<open>search_result_t doc = {0}\<close>.\<close>

definition zero_doc :: search_result_t where
  "zero_doc = \<lparr>title = [], description = [], url = [], document_id = 0, relevance_score = 0,
     timestamp = 0, click_count = 0, authority_score = 0\<rparr>"

text \<open>The statics before any call: zero-initialised, the array with its 100 slots.\<close>

definition search_engine_static :: search_engine where
  "search_engine_static = \<lparr>g_search_config = \<lparr>relevance_threshold = 0, suggestion_threshold = 0,
       max_results = 0, max_suggestions = 0\<rparr>,
     g_search_engine_initialized = False, g_total_documents = 0, g_total_queries = 0,
     g_avg_response_time = 0, g_documents = replicate (nat MAX_DOCUMENTS) zero_doc,
     g_document_count = 0\<rparr>"

definition to_lower_inplace :: "string \<Rightarrow> string" where
  "to_lower_inplace s = map c_tolower s"

definition add_document_to_search_engine_virtual :: "search_result_t \<Rightarrow> search_engine \<Rightarrow> search_engine" where
  "add_document_to_search_engine_virtual doc st =
     (if g_document_count st \<ge> MAX_DOCUMENTS then st
      else let n = int_incr (g_document_count st) in
        st\<lparr>g_documents := (g_documents st)[nat (g_document_count st) := doc],
           g_document_count := n, g_total_documents := n\<rparr>)"

text \<open>
  \<^verbatim>\<open>add_document_to_search_engine\<close>: the file name is \<open>None\<close> for a NULL pointer. The
  fields of the slot are written in place.
\<close>

definition add_document_to_search_engine ::
    "limits \<Rightarrow> env \<Rightarrow> string option \<Rightarrow> search_engine \<Rightarrow> search_engine" where
  "add_document_to_search_engine lims e filename st =
     (case filename of None \<Rightarrow> st
      | Some fname \<Rightarrow>
        if g_document_count st \<ge> MAX_DOCUMENTS then st
        else let n = int_incr (g_document_count st);
                 slot = g_documents st ! nat (g_document_count st);
                 doc = slot\<lparr>title := copy_trunc (sizeof_title lims) fname,
                   description := (case fs e fname of
                       None \<Rightarrow> copy_trunc (sizeof_description lims)
                                 (''(Could not read file '' @ [CHR 0x27] @ fname @ [CHR 0x27] @ '')'')
                     | Some content \<Rightarrow> take (sizeof_description lims - 1) content),
                   url := copy_trunc (sizeof_url lims) ''local-file'',
                   document_id := g_document_count st + 1,
                   relevance_score := 0,
                   timestamp := now e,
                   click_count := 0,
                   authority_score := 0\<rparr>
             in st\<lparr>g_documents := (g_documents st)[nat (g_document_count st) := doc],
                   g_document_count := n, g_total_documents := n\<rparr>)"

definition init_search_engine :: "limits \<Rightarrow> search_engine \<Rightarrow> search_engine" where
  "init_search_engine lims st =
     st\<lparr>g_search_config := \<lparr>relevance_threshold = 1 / 10, suggestion_threshold = 1 / 10,
           max_results = MAX_SEARCH_RESULTS lims, max_suggestions = MAX_AUTOCOMPLETE_SUGGESTIONS lims\<rparr>,
        g_document_count := 0, g_total_documents := 0, g_total_queries := 0,
        g_avg_response_time := 0, g_search_engine_initialized := True\<rparr>"

text \<open>A sequence of adds, for the capacity invariant.\<close>

datatype catalog_op = AddDocument env "string option" | AddVirtualDocument search_result_t

fun catalog_step :: "limits \<Rightarrow> catalog_op \<Rightarrow> search_engine \<Rightarrow> search_engine" where
  "catalog_step lims (AddDocument e filename) st = add_document_to_search_engine lims e filename st"
| "catalog_step lims (AddVirtualDocument doc) st = add_document_to_search_engine_virtual doc st"

fun catalog_run :: "limits \<Rightarrow> catalog_op list \<Rightarrow> search_engine \<Rightarrow> search_engine" where
  "catalog_run lims [] st = st"
| "catalog_run lims (x # xs) st = catalog_run lims xs (catalog_step lims x st)"


subsection \<open>search\_engine.c: scoring and ranking\<close>

text \<open>
  \<^verbatim>\<open>count_occurrences\<close>: the loop restarts \<^verbatim>\<open>strstr\<close> just behind each match. The
  source tests the pattern for emptiness once, before the loop; the loop function repeats
  the test so that it is total, and \<open>count_occurrences\<close> never reaches it with an empty
  pattern. The count is at most the length of the text, so the C \<^verbatim>\<open>int\<close> cannot wrap.
\<close>

lemma strstr_Some_length: "strstr p pat = Some q \<Longrightarrow> length q \<le> length p \<and> prefix pat q"
  by (induction p) (auto split: if_splits)

function count_from :: "string \<Rightarrow> string \<Rightarrow> int \<Rightarrow> int" where
  "count_from p pat cnt =
     (if pat = [] then cnt
      else case strstr p pat of
             None \<Rightarrow> cnt
           | Some q \<Rightarrow> count_from (drop (length pat) q) pat (cnt + 1))"
  by pat_completeness auto
termination
proof (relation "measure (\<lambda>(p, pat, cnt). length p)")
  show "wf (measure (\<lambda>(p, pat, cnt). length p))" by simp
next
  fix p pat :: string and cnt :: int and q :: string
  assume "pat \<noteq> []" and "strstr p pat = Some q"
  then have "length q \<le> length p" and "prefix pat q"
    using strstr_Some_length by blast+
  moreover from \<open>prefix pat q\<close> have "length pat \<le> length q"
    by (rule prefix_length_le)
  moreover from \<open>pat \<noteq> []\<close> have "0 < length pat"
    by simp
  ultimately have "length q - length pat < length p"
    by linarith
  then have "length (drop (length pat) q) < length p"
    by simp
  then show "((drop (length pat) q, pat, cnt + 1), (p, pat, cnt))
      \<in> measure (\<lambda>(p, pat, cnt). length p)"
    by simp
qed

declare count_from.simps [simp del]

definition count_occurrences :: "string \<Rightarrow> string \<Rightarrow> int" where
  "count_occurrences txt pat = (if pat = [] then 0 else count_from txt pat 0)"

definition cmp_results_descending :: "search_result_t \<Rightarrow> search_result_t \<Rightarrow> int" where
  "cmp_results_descending ra rb =
     (if relevance_score ra < relevance_score rb then 1
      else if relevance_score ra > relevance_score rb then - 1
      else 0)"

text \<open>
  \<^verbatim>\<open>qsort(base, n, size, cmp)\<close> as a function from the array to the array it leaves.
  The C standard promises a rearrangement of the elements in which \<open>cmp\<close> never puts a
  later element before an earlier one, and nothing on the order of elements that compare
  equal.
\<close>

type_synonym 'a qsort = "('a \<Rightarrow> 'a \<Rightarrow> int) \<Rightarrow> 'a list \<Rightarrow> 'a list"

definition qsort_spec :: "('a \<Rightarrow> 'a \<Rightarrow> int) \<Rightarrow> 'a qsort \<Rightarrow> bool" where
  "qsort_spec cmp qs =
     (\<forall>xs. mset (qs cmp xs) = mset xs \<and> sorted_wrt (\<lambda>a b. cmp a b \<le> 0) (qs cmp xs))"


text \<open>Step 1 of \<^verbatim>\<open>search_and_rank\<close>: the lowercase tokens, at most 16.\<close>

definition query_tokens :: "limits \<Rightarrow> string \<Rightarrow> string list" where
  "query_tokens lims query =
     take 16 (strtok_spaces (to_lower_inplace (copy_trunc (MAX_QUERY_LENGTH lims) query)) [])"

text \<open>Step 3: the loop over the tokens, with its two accumulators.\<close>

fun score_tokens :: "string \<Rightarrow> string \<Rightarrow> string list \<Rightarrow> real \<times> int \<Rightarrow> real \<times> int" where
  "score_tokens title_l desc_l [] acc = acc"
| "score_tokens title_l desc_l (t # ts) (doc_score, words_matched) =
     (let title_hits = count_occurrences title_l t;
          body_hits = count_occurrences desc_l t
      in score_tokens title_l desc_l ts
           (doc_score + real_of_int (title_hits * 3 + body_hits),
            if title_hits > 0 \<or> body_hits > 0 then words_matched + 1 else words_matched))"

text \<open>Steps 2 to 4: the body of the loop over the documents.\<close>

definition score_document :: "limits \<Rightarrow> string list \<Rightarrow> search_result_t \<Rightarrow> real" where
  "score_document lims tokens doc =
     (let title_l = to_lower_inplace (copy_trunc (MAX_TITLE_LENGTH lims) (title doc));
          desc_l = to_lower_inplace (copy_trunc (MAX_DESCRIPTION_LENGTH lims) (description doc));
          (doc_score, words_matched) = score_tokens title_l desc_l tokens (0, 0);
          token_count = int (length tokens)
      in if token_count > 1
         then doc_score * (1 + real_of_int words_matched / real_of_int token_count)
         else doc_score)"

text \<open>Step 5: the running maximum, its floor, and the division.\<close>

fun max_raw_loop :: "real list \<Rightarrow> real \<Rightarrow> real" where
  "max_raw_loop [] max_raw = max_raw"
| "max_raw_loop (s # scores) max_raw = max_raw_loop scores (if s > max_raw then s else max_raw)"

definition floor_max_raw :: "real list \<Rightarrow> real" where
  "floor_max_raw scores =
     (let max_raw = max_raw_loop scores 0 in if max_raw < 1 / 1000 then 1 / 1000 else max_raw)"

definition rank_documents :: "limits \<Rightarrow> string list \<Rightarrow> search_result_t list \<Rightarrow> search_result_t list" where
  "rank_documents lims tokens docs =
     (let scores = map (score_document lims tokens) docs;
          max_raw = floor_max_raw scores
      in map (\<lambda>(doc, s). doc\<lparr>relevance_score := s / max_raw\<rparr>) (zip docs scores))"

text \<open>
  The scores as section 4.2 of the specification words them, to compare the loops with.
  They are written without the functions of the program. A text holds \<open>k\<close> occurrences of
  a pattern that do not overlap when it can be cut into \<open>k + 1\<close> pieces with the pattern
  between each two neighbours; the number of non-overlapping occurrences is the largest
  such \<open>k\<close>. (The empty pattern, which the splitting of the query never yields, counts
  for nothing.)
\<close>

fun join_with :: "string \<Rightarrow> string list \<Rightarrow> string" where
  "join_with pat [] = []"
| "join_with pat [u] = u"
| "join_with pat (u # v # vs) = u @ pat @ join_with pat (v # vs)"

definition disjoint_occurrences :: "string \<Rightarrow> string \<Rightarrow> nat \<Rightarrow> bool" where
  "disjoint_occurrences hay pat k = (\<exists>us. length us = Suc k \<and> join_with pat us = hay)"

definition occurrence_count :: "string \<Rightarrow> string \<Rightarrow> nat" where
  "occurrence_count hay pat = (if pat = [] then 0 else Max {k. disjoint_occurrences hay pat k})"

text \<open>The lowercase copy of a text: each of the 26 capital letters replaced by its small one.\<close>

definition lower_letter :: "char \<Rightarrow> char" where
  "lower_letter c =
     (case map_of (zip ''ABCDEFGHIJKLMNOPQRSTUVWXYZ'' ''abcdefghijklmnopqrstuvwxyz'') c of
        None \<Rightarrow> c
      | Some l \<Rightarrow> l)"

definition spec_title_hits :: "search_result_t \<Rightarrow> string \<Rightarrow> nat" where
  "spec_title_hits doc t = occurrence_count (map lower_letter (title doc)) t"

definition spec_body_hits :: "search_result_t \<Rightarrow> string \<Rightarrow> nat" where
  "spec_body_hits doc t = occurrence_count (map lower_letter (description doc)) t"

text \<open>
  The sum over the tokens of three times the title occurrences plus the body occurrences,
  the coverage bonus when more than one token was supplied, and the division by the
  largest raw score of the query, floored at the epsilon.
\<close>

definition spec_raw_score :: "string list \<Rightarrow> search_result_t \<Rightarrow> real" where
  "spec_raw_score tokens doc =
     (let accumulated = (\<Sum>t\<leftarrow>tokens. real (spec_title_hits doc t * 3 + spec_body_hits doc t * 1));
          matched_token_count =
            length (filter (\<lambda>t. spec_title_hits doc t > 0 \<or> spec_body_hits doc t > 0) tokens);
          token_count = length tokens
      in if token_count > 1
         then accumulated * (1 + real matched_token_count / real token_count)
         else accumulated)"

definition spec_relevance :: "string list \<Rightarrow> search_result_t list \<Rightarrow> search_result_t \<Rightarrow> real" where
  "spec_relevance tokens docs doc =
     spec_raw_score tokens doc / max (Max (set (map (spec_raw_score tokens) docs))) (1 / 1000)"

text \<open>
  The working copies \<^verbatim>\<open>title_l[MAX_TITLE_LENGTH]\<close> and \<^verbatim>\<open>desc_l[MAX_DESCRIPTION_LENGTH]\<close>
  hold the whole title and body of a document when these are shorter than the arrays, as
  they are when the fields of \<^verbatim>\<open>search_result_t\<close> are declared with the same two
  constants.
\<close>

definition fits_working_copies :: "limits \<Rightarrow> search_result_t \<Rightarrow> bool" where
  "fits_working_copies lims doc =
     (length (title doc) < MAX_TITLE_LENGTH lims \<and>
      length (description doc) < MAX_DESCRIPTION_LENGTH lims)"

text \<open>
  What a call prints, and what \<^verbatim>\<open>search_and_rank\<close> returns: the count, the entries
  written to the caller's array, the lines printed and the statics left behind.
\<close>

datatype search_output =
    Error_not_initialized
  | Debug_no_documents
  | Search_log string int real

record search_outcome =
  out_count :: int
  results :: "search_result_t list"
  printed :: "search_output list"
  engine :: search_engine

text \<open>
  \<open>query\<close> is \<open>None\<close> for a NULL pointer, \<open>results_buf\<close> is false for a NULL array,
  \<open>ms\<close> is the time the two \<^verbatim>\<open>clock()\<close> readings give.
\<close>

definition search_and_rank ::
    "search_result_t qsort \<Rightarrow> limits \<Rightarrow> real \<Rightarrow> string option \<Rightarrow> bool \<Rightarrow> int \<Rightarrow> search_engine
       \<Rightarrow> search_outcome" where
  "search_and_rank qs lims ms query results_buf mx st =
     (case query of
        None \<Rightarrow> \<lparr>out_count = 0, results = [], printed = [], engine = st\<rparr>
      | Some q \<Rightarrow>
        if \<not> results_buf \<or> mx \<le> 0
        then \<lparr>out_count = 0, results = [], printed = [], engine = st\<rparr>
        else if \<not> g_search_engine_initialized st
        then \<lparr>out_count = 0, results = [], printed = [Error_not_initialized], engine = st\<rparr>
        else if g_document_count st = 0
        then \<lparr>out_count = 0, results = [], printed = [Debug_no_documents], engine = st\<rparr>
        else
          let tokens = query_tokens lims q;
              local = rank_documents lims tokens (take (nat (g_document_count st)) (g_documents st));
              n_local = int (length local);
              sorted_local = qs cmp_results_descending local;
              n_out = (if n_local < mx then n_local else mx);
              total = int_incr (g_total_queries st)
          in \<lparr>out_count = n_out,
              results = take (nat n_out) sorted_local,
              printed = [Search_log q n_out ms],
              engine = st\<lparr>g_total_queries := total,
                 g_avg_response_time :=
                   (g_avg_response_time st * real_of_int (total - 1) + ms) / real_of_int total\<rparr>\<rparr>)"

subsection \<open>autocomplete.c\<close>

text \<open>
  A node holds its 128 child pointers as a function from the index to the child, \<open>None\<close>
  for NULL; the code reads and writes indices below 128 only.
\<close>

datatype trie_node = Trie_Node
  (is_end_of_word: bool)
  (suggestion: "string option")
  (score: real)
  (frequency: int)
  (last_used: int)
  (children: "nat \<Rightarrow> trie_node option")

record autocomplete_result_t =
  suggestion_r :: string
  score_r :: real
  frequency_r :: int
  last_used_r :: int
  is_trending :: bool

datatype autocomplete_source_t = AC_SOURCE_DOCUMENT_TITLES | AC_SOURCE_OTHER

record autocomplete_context_t =
  ctx_root :: trie_node
  total_suggestions :: int

text \<open>\<^verbatim>\<open>calloc\<close> zeroes the node.\<close>

definition create_trie_node :: trie_node where
  "create_trie_node = Trie_Node False None 0 0 0 (\<lambda>_. None)"

definition init_autocomplete_system :: autocomplete_context_t where
  "init_autocomplete_system = \<lparr>ctx_root = create_trie_node, total_suggestions = 0\<rparr>"

definition calculate_suggestion_score :: "string \<Rightarrow> autocomplete_source_t \<Rightarrow> real" where
  "calculate_suggestion_score sug source =
     (case source of AC_SOURCE_DOCUMENT_TITLES \<Rightarrow> 6 / 10 | _ \<Rightarrow> 5 / 10)"

text \<open>
  \<^verbatim>\<open>insert_suggestion_into_trie\<close>: the first argument is the rest of the string the loop
  still has to read, \<open>sug\<close> the whole string, the node the one \<^verbatim>\<open>current\<close> points to.
  The result is that node after the walk has created the missing children below it and
  written the terminal node.
\<close>

primrec insert_suggestion_into_trie ::
    "string \<Rightarrow> string \<Rightarrow> real \<Rightarrow> int \<Rightarrow> trie_node \<Rightarrow> trie_node" where
  "insert_suggestion_into_trie [] sug sc tm node =
     Trie_Node True (Some sug) sc (int_incr (frequency node)) tm (children node)"
| "insert_suggestion_into_trie (ch # rest) sug sc tm node =
     (let c = c_tolower ch in
      if \<not> c_isalnum c then insert_suggestion_into_trie rest sug sc tm node
      else Trie_Node (is_end_of_word node) (suggestion node) (score node) (frequency node)
             (last_used node)
             ((children node)(of_char c :=
                Some (insert_suggestion_into_trie rest sug sc tm
                  (case children node (of_char c) of
                     None \<Rightarrow> create_trie_node
                   | Some child \<Rightarrow> child)))))"

definition add_autocomplete_suggestion ::
    "env \<Rightarrow> string option \<Rightarrow> real \<Rightarrow> autocomplete_source_t \<Rightarrow> autocomplete_context_t
       \<Rightarrow> int \<times> autocomplete_context_t" where
  "add_autocomplete_suggestion e sug sc source ctx =
     (case sug of
        None \<Rightarrow> (- 1, ctx)
      | Some s \<Rightarrow>
        if length s = 0 then (- 1, ctx)
        else let final_score = (if sc > 0 then sc else calculate_suggestion_score s source)
             in (0, ctx\<lparr>ctx_root := insert_suggestion_into_trie s s final_score (now e) (ctx_root ctx),
                       total_suggestions := int_incr (total_suggestions ctx)\<rparr>))"

definition compare_suggestions :: "autocomplete_result_t \<Rightarrow> autocomplete_result_t \<Rightarrow> int" where
  "compare_suggestions A B =
     (if score_r A > score_r B then - 1 else if score_r A < score_r B then 1 else 0)"

text \<open>
  \<^verbatim>\<open>collect_suggestions_from_trie\<close>: \<open>acc\<close> is the part of the caller's array written
  so far, \<^verbatim>\<open>*count\<close> its length. \<open>children_loop\<close> is the \<^verbatim>\<open>for\<close> loop over the child
  indices, given what the recursive call does for each child.
\<close>

fun children_loop ::
    "(nat \<Rightarrow> (autocomplete_result_t list \<Rightarrow> autocomplete_result_t list) option) \<Rightarrow> nat list \<Rightarrow> int
       \<Rightarrow> autocomplete_result_t list \<Rightarrow> autocomplete_result_t list" where
  "children_loop visit [] mx acc = acc"
| "children_loop visit (i # js) mx acc =
     (if int (length acc) < mx
      then children_loop visit js mx (case visit i of None \<Rightarrow> acc | Some k \<Rightarrow> k acc)
      else acc)"

primrec collect_suggestions_from_trie ::
    "trie_node \<Rightarrow> limits \<Rightarrow> int \<Rightarrow> autocomplete_result_t list \<Rightarrow> autocomplete_result_t list" where
  "collect_suggestions_from_trie (Trie_Node eow sug sc fr lu cs) =
     (\<lambda>lims mx acc.
        if int (length acc) \<ge> mx then acc
        else children_loop
               (\<lambda>i. map_option (\<lambda>child. collect_suggestions_from_trie child lims mx) (cs i))
               [0..<128] mx
               (case sug of
                  Some s \<Rightarrow>
                    if eow
                    then acc @ [\<lparr>suggestion_r = copy_trunc (MAX_SUGGESTION_LENGTH lims) s,
                                 score_r = sc, frequency_r = fr, last_used_r = lu,
                                 is_trending = False\<rparr>]
                    else acc
                | None \<Rightarrow> acc))"

text \<open>The walk from the root along the query; \<open>None\<close> is the early \<^verbatim>\<open>return 0\<close>.\<close>

primrec walk_prefix :: "string \<Rightarrow> trie_node \<Rightarrow> trie_node option" where
  "walk_prefix [] current = Some current"
| "walk_prefix (ch # rest) current =
     (let c = (of_char ch :: nat) in
      if c \<ge> 128 then None
      else case children current c of
             None \<Rightarrow> None
           | Some child \<Rightarrow> walk_prefix rest child)"

definition normalize_prefix :: "limits \<Rightarrow> string \<Rightarrow> string" where
  "normalize_prefix lims query = map c_tolower (copy_trunc (MAX_QUERY_LENGTH lims) query)"

text \<open>
  \<^verbatim>\<open>get_autocomplete_suggestions\<close> returns the entries it wrote (their number is the
  C return value).
\<close>

definition get_autocomplete_suggestions ::
    "autocomplete_result_t qsort \<Rightarrow> limits \<Rightarrow> autocomplete_context_t \<Rightarrow> string option \<Rightarrow> bool \<Rightarrow> int
       \<Rightarrow> autocomplete_result_t list" where
  "get_autocomplete_suggestions qs lims ctx query suggestions_buf mx =
     (case query of
        None \<Rightarrow> []
      | Some q \<Rightarrow>
        if \<not> suggestions_buf then []
        else (case walk_prefix (normalize_prefix lims q) (ctx_root ctx) of
                None \<Rightarrow> []
              | Some current \<Rightarrow>
                  qs compare_suggestions (collect_suggestions_from_trie current lims mx [])))"


text \<open>
  For the comparison with the code: the key under which an insertion files a suggestion
  (lowercased, everything but letters and digits deleted), the entries of all end-of-word
  nodes below a node in the order of the traversal, without a bound, and the entries
  below the node a query leads to.
\<close>

definition normal_form :: "string \<Rightarrow> string" where
  "normal_form s = filter c_isalnum (map c_tolower s)"

primrec all_matches :: "trie_node \<Rightarrow> limits \<Rightarrow> autocomplete_result_t list" where
  "all_matches (Trie_Node eow sug sc fr lu cs) =
     (\<lambda>lims.
        (case sug of
           Some s \<Rightarrow>
             if eow
             then [\<lparr>suggestion_r = copy_trunc (MAX_SUGGESTION_LENGTH lims) s,
                    score_r = sc, frequency_r = fr, last_used_r = lu, is_trending = False\<rparr>]
             else []
         | None \<Rightarrow> [])
        @ concat (map (\<lambda>i. case map_option (\<lambda>child. all_matches child lims) (cs i) of
                              None \<Rightarrow> []
                            | Some found \<Rightarrow> found) [0..<128]))"

definition matches_under :: "limits \<Rightarrow> autocomplete_context_t \<Rightarrow> string \<Rightarrow> autocomplete_result_t list" where
  "matches_under lims ctx query =
     (case walk_prefix (normalize_prefix lims query) (ctx_root ctx) of
        None \<Rightarrow> []
      | Some current \<Rightarrow> all_matches current lims)"

text \<open>The node at the key of \<open>s\<close> is an end of word and holds \<open>s\<close> with score \<open>sc\<close>.\<close>

definition holds_suggestion :: "trie_node \<Rightarrow> string \<Rightarrow> real \<Rightarrow> bool" where
  "holds_suggestion node s sc =
     (case walk_prefix (normal_form s) node of
        None \<Rightarrow> False
      | Some n \<Rightarrow> is_end_of_word n \<and> suggestion n = Some s \<and> score n = sc)"

text \<open>A sequence of insertions.\<close>

fun ac_run ::
    "(env \<times> string option \<times> real \<times> autocomplete_source_t) list \<Rightarrow> autocomplete_context_t
       \<Rightarrow> autocomplete_context_t" where
  "ac_run [] ctx = ctx"
| "ac_run ((e, sug, sc, source) # rest) ctx =
     ac_run rest (snd (add_autocomplete_suggestion e sug sc source ctx))"

subsection \<open>minigit.h: the data of the store\<close>

record CommitFile =
  filename :: string
  content :: string

text \<open>
  A commit without its \<^verbatim>\<open>next\<close> pointer: the linked list of commits is a list, newest
  first. \<open>files\<close> holds the slots written so far, in index order, \<open>filename\<close>,
  \<open>content\<close> and \<open>message\<close> the C strings that start at these fields. The C array has
  \<open>MAX_FILES_PER_COMMIT\<close> slots and neither loop that fills it tests the index. A slot
  at index 50 or above lies outside the array, where \<^verbatim>\<open>file_count\<close> and \<^verbatim>\<open>next\<close> of the
  same commit are; C does not define what the program does from such a write on. The
  model marks it in the state (\<open>out_of_bounds\<close> below) and goes on as if the array had
  room: the state it computes once the mark is set says nothing about the program.
\<close>

record Commit =
  commit_id :: int
  message :: string
  files :: "CommitFile list"
  file_count :: int

record Repository =
  head :: "Commit list"
  commit_count :: int

text \<open>
  The globals of the program. The staging list \<open>index_head\<close> holds the \<^verbatim>\<open>filename\<close> of
  each \<^verbatim>\<open>File\<close> node, newest first. \<^verbatim>\<open>trie_index.c\<close> is not among the sources; its state
  is kept as the calls \<^verbatim>\<open>trie_insert_word(word, file)\<close> made so far. \<open>out_of_bounds\<close>
  is not a variable of the program: it is set when a loop has written a slot outside the
  \<^verbatim>\<open>files\<close> array of a commit.
\<close>

record minigit =
  repo :: Repository
  index_head :: "string list"
  g_autocomplete_ctx :: autocomplete_context_t
  search :: search_engine
  trie_index :: "(string \<times> string) list"
  out_of_bounds :: bool

definition WORKING_DIR :: string where
  "WORKING_DIR = ''.mgit_work''"

text \<open>The lines the store's commands print, one constructor for each \<^verbatim>\<open>printf\<close>.\<close>

datatype vcs_output =
    Repository_initialized
  | Invalid_filename
  | File_does_not_exist string
  | File_added string
  | No_files_to_commit
  | Commit_created int
  | Created_commit int
  | View_commit int string int "CommitFile list"
  | View_not_found int
  | Commit_not_found
  | Commit_deleted int
  | No_commits_yet
  | Log_line int string

subsection \<open>minigit.c: indexing\<close>

text \<open>
  The word loop of \<^verbatim>\<open>index_file_for_search\<close> over one line: maximal runs of letters,
  digits and underscores, lowercased. The second argument is the word being read. (The C
  buffer for it has 256 bytes and the loop does not test the index; a line piece has at
  most 1023 characters.)
\<close>

fun scan_words :: "string \<Rightarrow> string \<Rightarrow> string list" where
  "scan_words [] word = (if word = [] then [] else [word])"
| "scan_words (c # cs) word =
     (if c_isalnum c \<or> c = CHR ''_'' then scan_words cs (word @ [c_tolower c])
      else if word = [] then scan_words cs []
      else word # scan_words cs [])"

definition index_word :: "env \<Rightarrow> string \<Rightarrow> string \<Rightarrow> minigit \<Rightarrow> minigit" where
  "index_word e fname word s =
     (let s1 = s\<lparr>g_autocomplete_ctx :=
                  snd (add_autocomplete_suggestion e (Some word) (6 / 10) AC_SOURCE_DOCUMENT_TITLES
                        (g_autocomplete_ctx s))\<rparr>;
          trie_word = filter c_islower word
      in if trie_word \<noteq> [] then s1\<lparr>trie_index := trie_index s1 @ [(trie_word, fname)]\<rparr> else s1)"

definition index_file_for_search :: "env \<Rightarrow> string \<Rightarrow> minigit \<Rightarrow> minigit" where
  "index_file_for_search e fname s =
     (case fs e fname of
        None \<Rightarrow> s
      | Some txt \<Rightarrow>
          fold (\<lambda>line. fold (index_word e fname) (scan_words line [])) (fgets_lines 1024 txt []) s)"

definition index_commit_token :: "env \<Rightarrow> string \<Rightarrow> minigit \<Rightarrow> minigit" where
  "index_commit_token e token s =
     (let clean = map c_tolower (filter c_isalnum token)
      in if clean \<noteq> []
         then s\<lparr>g_autocomplete_ctx :=
                  snd (add_autocomplete_suggestion e (Some clean) (7 / 10) AC_SOURCE_DOCUMENT_TITLES
                        (g_autocomplete_ctx s)),
                trie_index := trie_index s @ [(clean, ''COMMIT'')]\<rparr>
         else s)"

text \<open>
  \<^verbatim>\<open>index_commit_message\<close>. The description and the url are copied with \<^verbatim>\<open>strncpy\<close> and
  the size of the field; the header that lays the fields out is absent, and the model
  keeps what fits the field.
\<close>

definition index_commit_message :: "limits \<Rightarrow> env \<Rightarrow> string \<Rightarrow> int \<Rightarrow> minigit \<Rightarrow> minigit" where
  "index_commit_message lims e msg cid s =
     (let s1 = fold (index_commit_token e) (strtok_spaces (copy_trunc 512 msg) []) s;
          doc = zero_doc\<lparr>title := copy_trunc (sizeof_title lims) (''Commit #'' @ show_int cid),
                  description := take (sizeof_description lims) msg,
                  url := take (sizeof_url lims) ''commit-msg''\<rparr>
      in s1\<lparr>search := add_document_to_search_engine_virtual doc (search s1)\<rparr>)"

subsection \<open>minigit.c: the commands\<close>

definition init_repository :: "minigit \<Rightarrow> vcs_output list \<times> minigit" where
  "init_repository s = ([Repository_initialized], s\<lparr>repo := \<lparr>head = [], commit_count = 0\<rparr>\<rparr>)"

text \<open>\<^verbatim>\<open>add_file\<close>; the file name is \<open>None\<close> for a NULL pointer.\<close>

definition add_file :: "limits \<Rightarrow> env \<Rightarrow> string option \<Rightarrow> minigit \<Rightarrow> vcs_output list \<times> minigit" where
  "add_file lims e fname s =
     (case fname of
        None \<Rightarrow> ([Invalid_filename], s)
      | Some f \<Rightarrow>
        if length f = 0 then ([Invalid_filename], s)
        else
          let fullpath = (if hd f = CHR ''/'' \<or> hd f = CHR 0x5C then take (MAX_FILENAME - 1) f
                          else copy_trunc MAX_FILENAME (cwd e @ ''/'' @ f))
          in (case fs e fullpath of
                None \<Rightarrow> ([File_does_not_exist fullpath], s)
              | Some txt \<Rightarrow>
                  let staged = take (MAX_FILENAME - 1) fullpath;
                      s1 = s\<lparr>index_head := staged # index_head s\<rparr>;
                      s2 = index_file_for_search e staged s1
                  in ([File_added staged],
                      s2\<lparr>search := add_document_to_search_engine lims e (Some staged) (search s2)\<rparr>)))"

text \<open>\<^verbatim>\<open>strrchr(path, '/')\<close> and the step behind the slash.\<close>

definition basename :: "string \<Rightarrow> string" where
  "basename path = rev (takeWhile (\<lambda>c. c \<noteq> CHR ''/'') (rev path))"

text \<open>The index \<^verbatim>\<open>file_count\<close> addresses a slot of the array.\<close>

definition slot_in_array :: "Commit \<Rightarrow> bool" where
  "slot_in_array c = (0 \<le> file_count c \<and> file_count c < MAX_FILES_PER_COMMIT)"

text \<open>
  The loop of \<^verbatim>\<open>commit_staged\<close> over the staging list. A file that cannot be opened
  leaves the content of its slot as \<^verbatim>\<open>malloc\<close> returned it. The name is copied with
  \<^verbatim>\<open>strncpy(cf->filename, base, MAX_FILENAME-1)\<close>: from 199 characters on, the byte
  behind them is unwritten and the content follows.
\<close>

fun commit_staged_loop :: "env \<Rightarrow> string list \<Rightarrow> Commit \<times> minigit \<Rightarrow> Commit \<times> minigit" where
  "commit_staged_loop e [] (new_commit, s) = (new_commit, s)"
| "commit_staged_loop e (f # rest) (new_commit, s) =
     (let text_read = (case fs e f of
                         Some txt \<Rightarrow> take (MAX_FILE_CONTENT - 1) txt
                       | None \<Rightarrow> malloc_bytes e);
          cf = \<lparr>filename = strncpy_open (MAX_FILENAME - 1) (basename f)
                              (unwritten_then e text_read),
                content = text_read\<rparr>
      in commit_staged_loop e rest
           (new_commit\<lparr>files := files new_commit @ [cf],
                       file_count := int_incr (file_count new_commit)\<rparr>,
            (index_file_for_search e f s)
              \<lparr>out_of_bounds := out_of_bounds s \<or> \<not> slot_in_array new_commit\<rparr>))"

text \<open>
  The message is copied with \<^verbatim>\<open>strncpy(new_commit->message, msg, 255)\<close> into 256 bytes
  that \<^verbatim>\<open>malloc\<close> returned: from 255 characters on, the byte behind them is unwritten,
  and the name of the first slot follows.
\<close>

definition message_string :: "env \<Rightarrow> string \<Rightarrow> CommitFile list \<Rightarrow> string" where
  "message_string e msg slots =
     strncpy_open 255 msg
       (case slots of [] \<Rightarrow> malloc_bytes e | cf # others \<Rightarrow> unwritten_then e (filename cf))"

text \<open>
  \<^verbatim>\<open>commit_staged\<close>. The source links the new commit at the head before the loop fills
  it; the loop does not read the repository, so the model links the filled commit.
\<close>

definition commit_staged :: "limits \<Rightarrow> env \<Rightarrow> string \<Rightarrow> minigit \<Rightarrow> vcs_output list \<times> minigit" where
  "commit_staged lims e msg s =
     (if index_head s = [] then ([No_files_to_commit], s)
      else
        let cid = int_incr (commit_count (repo s));
            (filled, s1) = commit_staged_loop e (index_head s)
               (\<lparr>commit_id = cid, message = message_string e msg [], files = [],
                 file_count = 0\<rparr>, s);
            new_commit = filled\<lparr>message := message_string e msg (files filled)\<rparr>;
            s2 = s1\<lparr>repo := \<lparr>head = new_commit # head (repo s1), commit_count = cid\<rparr>\<rparr>;
            s3 = index_commit_message lims e (message new_commit) cid s2
        in ([Commit_created cid], s3\<lparr>index_head := []\<rparr>))"

text \<open>
  The loop of \<^verbatim>\<open>save_commit\<close> over the entries of the working directory. The name is
  copied with \<^verbatim>\<open>strncpy(cf->filename, dp->d_name, MAX_FILENAME)\<close>: a name of 200
  characters or more fills the field, and the string runs on into the content.
\<close>

fun save_commit_loop :: "env \<Rightarrow> string list \<Rightarrow> Commit \<times> minigit \<Rightarrow> Commit \<times> minigit" where
  "save_commit_loop e [] (new_commit, s) = (new_commit, s)"
| "save_commit_loop e (d_name # rest) (new_commit, s) =
     (if take 1 d_name = ''.'' then save_commit_loop e rest (new_commit, s)
      else
        let path = copy_trunc 512 (WORKING_DIR @ ''/'' @ d_name)
        in (case fs e path of
              None \<Rightarrow> save_commit_loop e rest (new_commit, s)
            | Some txt \<Rightarrow>
                save_commit_loop e rest
                  (new_commit\<lparr>files := files new_commit @
                       [\<lparr>filename = strncpy_open MAX_FILENAME d_name
                                      (take (MAX_FILE_CONTENT - 1) txt),
                         content = take (MAX_FILE_CONTENT - 1) txt\<rparr>],
                     file_count := int_incr (file_count new_commit)\<rparr>,
                   (index_file_for_search e path s)
                     \<lparr>out_of_bounds := out_of_bounds s \<or> \<not> slot_in_array new_commit\<rparr>)))"

definition save_commit :: "limits \<Rightarrow> env \<Rightarrow> string \<Rightarrow> minigit \<Rightarrow> vcs_output list \<times> minigit" where
  "save_commit lims e msg s =
     (let cid = int_incr (commit_count (repo s));
          (filled, s1) = save_commit_loop e (readdir_names e)
             (\<lparr>commit_id = cid, message = message_string e msg [], files = [],
               file_count = 0\<rparr>, s);
          new_commit = filled\<lparr>message := message_string e msg (files filled)\<rparr>;
          s2 = s1\<lparr>repo := \<lparr>head = new_commit # head (repo s1), commit_count = cid\<rparr>\<rparr>;
          s3 = index_commit_message lims e (message new_commit) cid s2
      in ([Created_commit cid], s3))"

text \<open>The list walks of \<^verbatim>\<open>view_commit\<close>, \<^verbatim>\<open>delete_commit\<close> and \<^verbatim>\<open>view_log\<close>.\<close>

fun find_commit :: "int \<Rightarrow> Commit list \<Rightarrow> Commit option" where
  "find_commit cid [] = None"
| "find_commit cid (c # cs) = (if commit_id c = cid then Some c else find_commit cid cs)"

definition view_commit :: "int \<Rightarrow> minigit \<Rightarrow> vcs_output list" where
  "view_commit cid s =
     (case find_commit cid (head (repo s)) of
        None \<Rightarrow> [View_not_found cid]
      | Some c \<Rightarrow> [View_commit (commit_id c) (message c) (file_count c)
                     (take (nat (file_count c)) (files c))])"

text \<open>The list without the first commit of the given id; \<open>None\<close> when the walk ends at NULL.\<close>

fun unlink_commit :: "int \<Rightarrow> Commit list \<Rightarrow> Commit list option" where
  "unlink_commit cid [] = None"
| "unlink_commit cid (c # cs) =
     (if commit_id c \<noteq> cid then map_option ((#) c) (unlink_commit cid cs) else Some cs)"

definition delete_commit :: "int \<Rightarrow> minigit \<Rightarrow> vcs_output list \<times> minigit" where
  "delete_commit cid s =
     (case unlink_commit cid (head (repo s)) of
        None \<Rightarrow> ([Commit_not_found], s)
      | Some cs \<Rightarrow> ([Commit_deleted cid], s\<lparr>repo := (repo s)\<lparr>head := cs\<rparr>\<rparr>))"

definition view_log :: "minigit \<Rightarrow> vcs_output list" where
  "view_log s =
     (if head (repo s) = [] then [No_commits_yet]
      else map (\<lambda>c. Log_line (commit_id c) (message c)) (head (repo s)))"

text \<open>Sequences of commands, and the ids of the commits they announce.\<close>

datatype vcs_op =
    Stage env "string option"
  | CommitStaged env string
  | SaveFromWorkingDirectory env string
  | Delete int

fun vcs_step :: "limits \<Rightarrow> vcs_op \<Rightarrow> minigit \<Rightarrow> vcs_output list \<times> minigit" where
  "vcs_step lims (Stage e fname) s = add_file lims e fname s"
| "vcs_step lims (CommitStaged e msg) s = commit_staged lims e msg s"
| "vcs_step lims (SaveFromWorkingDirectory e msg) s = save_commit lims e msg s"
| "vcs_step lims (Delete cid) s = delete_commit cid s"

fun vcs_run :: "limits \<Rightarrow> vcs_op list \<Rightarrow> minigit \<Rightarrow> vcs_output list \<times> minigit" where
  "vcs_run lims [] s = ([], s)"
| "vcs_run lims (x # xs) s =
     (let (out1, s1) = vcs_step lims x s;
          (out2, s2) = vcs_run lims xs s1
      in (out1 @ out2, s2))"

fun created_ids :: "vcs_output list \<Rightarrow> int list" where
  "created_ids [] = []"
| "created_ids (Commit_created cid # out) = cid # created_ids out"
| "created_ids (Created_commit cid # out) = cid # created_ids out"
| "created_ids (x # out) = created_ids out"

text \<open>The state \<^verbatim>\<open>main\<close> starts the command loop with.\<close>

definition initial_state :: "limits \<Rightarrow> minigit" where
  "initial_state lims =
     \<lparr>repo = \<lparr>head = [], commit_count = 0\<rparr>, index_head = [],
      g_autocomplete_ctx = init_autocomplete_system,
      search = init_search_engine lims search_engine_static,
      trie_index = [], out_of_bounds = False\<rparr>"

fun logged_ids :: "vcs_output list \<Rightarrow> int list" where
  "logged_ids [] = []"
| "logged_ids (Log_line cid msg # out) = cid # logged_ids out"
| "logged_ids (x # out) = logged_ids out"

text \<open>
  The invariant of the repository: the ids in the list are distinct and at or below the
  counter.
\<close>

definition repo_inv :: "minigit \<Rightarrow> bool" where
  "repo_inv s = (distinct (map commit_id (head (repo s))) \<and>
     list_all (\<lambda>c. commit_id c \<le> commit_count (repo s)) (head (repo s)))"

subsection \<open>Example data\<close>

text \<open>Values for the header constants, a file system with two files, and sorting routines.\<close>

definition demo_limits :: limits where
  "demo_limits = \<lparr>MAX_QUERY_LENGTH = 256, MAX_TITLE_LENGTH = 256, MAX_DESCRIPTION_LENGTH = 1024,
     MAX_SUGGESTION_LENGTH = 128, sizeof_title = 256, sizeof_description = 1024, sizeof_url = 256,
     MAX_SEARCH_RESULTS = 10, MAX_AUTOCOMPLETE_SUGGESTIONS = 10\<rparr>"

definition demo_env :: env where
  "demo_env = \<lparr>fs = (\<lambda>p. if p = ''/w/notes.txt'' then Some ''alpha beta alpha''
                        else if p = ''/todo.txt'' then Some ''beta beta''
                        else if p = ''.mgit_work/notes.txt'' then Some ''alpha''
                        else None),
     cwd = ''/w'', now = 1000, readdir_names = [''.'', ''..'', ''notes.txt''], malloc_bytes = []\<rparr>"

definition demo_ops :: "vcs_op list" where
  "demo_ops = [Stage demo_env (Some ''notes.txt''), Stage demo_env (Some ''/todo.txt''),
     CommitStaged demo_env ''initial import'', Delete 1,
     SaveFromWorkingDirectory demo_env ''snapshot'', Stage demo_env (Some ''todo.txt''),
     CommitStaged demo_env ''third'']"

text \<open>A working directory with 51 files, each of them readable.\<close>

definition crowded_env :: env where
  "crowded_env = \<lparr>fs = (\<lambda>p. Some ''x''), cwd = ''/w'', now = 1000,
      readdir_names = map (\<lambda>i. replicate (Suc i) CHR ''a'') [0..<51], malloc_bytes = []\<rparr>"

text \<open>The store after two commits.\<close>

definition two_commits :: minigit where
  "two_commits = (initial_state demo_limits)
     \<lparr>repo := \<lparr>head = [\<lparr>commit_id = 2, message = ''snapshot'',
                         files = [\<lparr>filename = ''notes.txt'', content = ''alpha''\<rparr>], file_count = 1\<rparr>,
                       \<lparr>commit_id = 1, message = ''initial import'',
                         files = [\<lparr>filename = ''todo.txt'', content = ''beta beta''\<rparr>,
                                  \<lparr>filename = ''notes.txt'', content = ''alpha beta alpha''\<rparr>],
                         file_count = 2\<rparr>],
               commit_count = 2\<rparr>\<rparr>"

text \<open>
  Two sorting routines that keep the promise of \<^verbatim>\<open>qsort\<close>: insertion sort from the right
  end, which keeps equal elements in their order, and from the left end, which reverses
  it.
\<close>

fun insert_by :: "('a \<Rightarrow> 'a \<Rightarrow> int) \<Rightarrow> 'a \<Rightarrow> 'a list \<Rightarrow> 'a list" where
  "insert_by cmp x [] = [x]"
| "insert_by cmp x (y # ys) = (if cmp x y \<le> 0 then x # y # ys else y # insert_by cmp x ys)"

definition stable_qsort :: "'a qsort" where
  "stable_qsort cmp xs = foldr (insert_by cmp) xs []"

definition reversing_qsort :: "'a qsort" where
  "reversing_qsort cmp xs = fold (insert_by cmp) xs []"

text \<open>The catalog after the two files were added.\<close>

definition two_files :: search_engine where
  "two_files = catalog_run demo_limits
     [AddDocument demo_env (Some ''/w/notes.txt''), AddDocument demo_env (Some ''/todo.txt'')]
     (init_search_engine demo_limits search_engine_static)"

text \<open>Tries: "ca" with score 0.1 and "cb" with score 0.9; "cat" with 0.9 and then "car" with 0.5.\<close>

definition two_suggestions :: autocomplete_context_t where
  "two_suggestions = ac_run
     [(demo_env, Some ''ca'', 1 / 10, AC_SOURCE_OTHER), (demo_env, Some ''cb'', 9 / 10, AC_SOURCE_OTHER)]
     init_autocomplete_system"

definition cat_car :: autocomplete_context_t where
  "cat_car = ac_run [(demo_env, Some ''car'', 5 / 10, AC_SOURCE_OTHER)]
     (snd (add_autocomplete_suggestion demo_env (Some ''Cat'') (9 / 10) AC_SOURCE_OTHER
            init_autocomplete_system))"

section \<open>Facts about the model\<close>

subsection \<open>The catalog\<close>

lemma add_virtual_count_le:
  "g_document_count st \<le> MAX_DOCUMENTS \<Longrightarrow>
   g_document_count (add_document_to_search_engine_virtual doc st) \<le> MAX_DOCUMENTS"
  by (simp add: add_document_to_search_engine_virtual_def Let_def int_incr_def
        MAX_DOCUMENTS_def INT_MAX_def)

lemma add_document_count_le:
  "g_document_count st \<le> MAX_DOCUMENTS \<Longrightarrow>
   g_document_count (add_document_to_search_engine lims e f st) \<le> MAX_DOCUMENTS"
  by (simp add: add_document_to_search_engine_def Let_def int_incr_def MAX_DOCUMENTS_def
        INT_MAX_def split: option.splits)

lemma catalog_run_count_le:
  "g_document_count st \<le> MAX_DOCUMENTS \<Longrightarrow>
   g_document_count (catalog_run lims ops st) \<le> MAX_DOCUMENTS"
proof (induction ops arbitrary: st)
  case Nil
  then show ?case by simp
next
  case (Cons x xs)
  have "g_document_count (catalog_step lims x st) \<le> MAX_DOCUMENTS"
    using Cons.prems by (cases x) (simp_all add: add_virtual_count_le add_document_count_le)
  then show ?case using Cons.IH by simp
qed

subsection \<open>The store\<close>

lemma fold_frame:
  assumes "\<And>x s. g (f x s) = g s"
  shows "g (fold f xs s) = g s"
  using assms by (induction xs arbitrary: s) simp_all

lemma index_word_frame:
  "repo (index_word e fname w s) = repo s"
  "index_head (index_word e fname w s) = index_head s"
  "search (index_word e fname w s) = search s"
  "out_of_bounds (index_word e fname w s) = out_of_bounds s"
  by (simp_all add: index_word_def Let_def)

lemma index_file_for_search_frame:
  "repo (index_file_for_search e fname s) = repo s"
  "index_head (index_file_for_search e fname s) = index_head s"
  "search (index_file_for_search e fname s) = search s"
  "out_of_bounds (index_file_for_search e fname s) = out_of_bounds s"
  by (simp_all add: index_file_for_search_def fold_frame index_word_frame split: option.splits)

lemma index_commit_token_frame:
  "repo (index_commit_token e tok s) = repo s"
  "index_head (index_commit_token e tok s) = index_head s"
  "search (index_commit_token e tok s) = search s"
  "out_of_bounds (index_commit_token e tok s) = out_of_bounds s"
  by (simp_all add: index_commit_token_def Let_def)

lemma index_commit_message_frame:
  "repo (index_commit_message lims e msg cid s) = repo s"
  "index_head (index_commit_message lims e msg cid s) = index_head s"
  "out_of_bounds (index_commit_message lims e msg cid s) = out_of_bounds s"
  by (simp_all add: index_commit_message_def Let_def fold_frame index_commit_token_frame)

lemma commit_staged_loop_frame:
  "repo (snd (commit_staged_loop e paths (c, s))) = repo s"
  "index_head (snd (commit_staged_loop e paths (c, s))) = index_head s"
  "search (snd (commit_staged_loop e paths (c, s))) = search s"
  "commit_id (fst (commit_staged_loop e paths (c, s))) = commit_id c"
  "message (fst (commit_staged_loop e paths (c, s))) = message c"
  by (induction paths arbitrary: c s; simp add: Let_def index_file_for_search_frame)+

lemma save_commit_loop_frame:
  "repo (snd (save_commit_loop e ns (c, s))) = repo s"
  "index_head (snd (save_commit_loop e ns (c, s))) = index_head s"
  "search (snd (save_commit_loop e ns (c, s))) = search s"
  "commit_id (fst (save_commit_loop e ns (c, s))) = commit_id c"
  "message (fst (save_commit_loop e ns (c, s))) = message c"
  by (induction ns arbitrary: c s; simp add: Let_def index_file_for_search_frame split: option.splits)+

lemma commit_staged_empty:
  "index_head s = [] \<Longrightarrow> commit_staged lims e msg s = ([No_files_to_commit], s)"
  by (simp add: commit_staged_def)

lemma commit_staged_nonempty:
  assumes "index_head s \<noteq> []"
  shows "fst (commit_staged lims e msg s) = [Commit_created (int_incr (commit_count (repo s)))]"
    and "commit_count (repo (snd (commit_staged lims e msg s))) = int_incr (commit_count (repo s))"
    and "index_head (snd (commit_staged lims e msg s)) = []"
    and "\<exists>c. head (repo (snd (commit_staged lims e msg s))) = c # head (repo s) \<and>
             commit_id c = int_incr (commit_count (repo s))"
  using assms
  by (simp_all add: commit_staged_def Let_def split_beta index_commit_message_frame
        commit_staged_loop_frame)

lemma save_commit_result:
  shows "fst (save_commit lims e msg s) = [Created_commit (int_incr (commit_count (repo s)))]"
    and "commit_count (repo (snd (save_commit lims e msg s))) = int_incr (commit_count (repo s))"
    and "index_head (snd (save_commit lims e msg s)) = index_head s"
    and "\<exists>c. head (repo (snd (save_commit lims e msg s))) = c # head (repo s) \<and>
             commit_id c = int_incr (commit_count (repo s))"
  by (simp_all add: save_commit_def Let_def split_beta index_commit_message_frame
        save_commit_loop_frame)


lemma add_file_frame:
  "repo (snd (add_file lims e fname s)) = repo s"
  "created_ids (fst (add_file lims e fname s)) = []"
  by (simp_all add: add_file_def Let_def index_file_for_search_frame split: option.splits)

lemma delete_commit_frame:
  "commit_count (repo (snd (delete_commit cid s))) = commit_count (repo s)"
  "created_ids (fst (delete_commit cid s)) = []"
  "index_head (snd (delete_commit cid s)) = index_head s"
  "g_autocomplete_ctx (snd (delete_commit cid s)) = g_autocomplete_ctx s"
  "search (snd (delete_commit cid s)) = search s"
  "trie_index (snd (delete_commit cid s)) = trie_index s"
  by (simp_all add: delete_commit_def split: option.splits)

lemma created_ids_append: "created_ids (xs @ ys) = created_ids xs @ created_ids ys"
  by (induction xs rule: created_ids.induct) simp_all

lemma int_incr_below: "x < INT_MAX \<Longrightarrow> int_incr x = x + 1"
  by (simp add: int_incr_def)

lemma vcs_step_count:
  assumes "commit_count (repo s) < INT_MAX"
  shows "(created_ids (fst (vcs_step lims x s)) = [] \<and>
          commit_count (repo (snd (vcs_step lims x s))) = commit_count (repo s)) \<or>
         (created_ids (fst (vcs_step lims x s)) = [commit_count (repo s) + 1] \<and>
          commit_count (repo (snd (vcs_step lims x s))) = commit_count (repo s) + 1)"
proof (cases x)
  case (Stage e fname)
  then show ?thesis by (simp add: add_file_frame)
next
  case (CommitStaged e msg)
  show ?thesis
  proof (cases "index_head s = []")
    case True
    then show ?thesis using CommitStaged by (simp add: commit_staged_empty)
  next
    case False
    then show ?thesis
      using CommitStaged assms by (simp add: commit_staged_nonempty int_incr_below)
  qed
next
  case (SaveFromWorkingDirectory e msg)
  then show ?thesis using assms by (simp add: save_commit_result int_incr_below)
next
  case (Delete cid)
  then show ?thesis by (simp add: delete_commit_frame)
qed

lemma vcs_run_ids:
  assumes "commit_count (repo s) + int (length ops) \<le> INT_MAX"
  shows "sorted_wrt (<) (created_ids (fst (vcs_run lims ops s))) \<and>
         list_all (\<lambda>i. commit_count (repo s) < i \<and> i \<le> commit_count (repo (snd (vcs_run lims ops s))))
           (created_ids (fst (vcs_run lims ops s))) \<and>
         commit_count (repo s) \<le> commit_count (repo (snd (vcs_run lims ops s))) \<and>
         commit_count (repo (snd (vcs_run lims ops s))) \<le> commit_count (repo s) + int (length ops)"
  using assms
proof (induction ops arbitrary: s)
  case Nil
  then show ?case by simp
next
  case (Cons x xs)
  let ?s1 = "snd (vcs_step lims x s)"
  let ?o1 = "fst (vcs_step lims x s)"
  have lt: "commit_count (repo s) < INT_MAX"
    using Cons.prems by simp
  have step: "(created_ids ?o1 = [] \<and> commit_count (repo ?s1) = commit_count (repo s)) \<or>
      (created_ids ?o1 = [commit_count (repo s) + 1] \<and>
       commit_count (repo ?s1) = commit_count (repo s) + 1)"
    using vcs_step_count [OF lt] .
  then have "commit_count (repo ?s1) + int (length xs) \<le> INT_MAX"
    using Cons.prems by auto
  from Cons.IH [OF this]
  have ih: "sorted_wrt (<) (created_ids (fst (vcs_run lims xs ?s1)))"
    "list_all (\<lambda>i. commit_count (repo ?s1) < i \<and> i \<le> commit_count (repo (snd (vcs_run lims xs ?s1))))
           (created_ids (fst (vcs_run lims xs ?s1)))"
    "commit_count (repo ?s1) \<le> commit_count (repo (snd (vcs_run lims xs ?s1)))"
    "commit_count (repo (snd (vcs_run lims xs ?s1))) \<le> commit_count (repo ?s1) + int (length xs)"
    by simp_all
  have run: "fst (vcs_run lims (x # xs) s) = ?o1 @ fst (vcs_run lims xs ?s1)"
    "snd (vcs_run lims (x # xs) s) = snd (vcs_run lims xs ?s1)"
    by (simp_all add: split_beta Let_def)
  from step show ?case
  proof
    assume a: "created_ids ?o1 = [] \<and> commit_count (repo ?s1) = commit_count (repo s)"
    then show ?thesis
      using ih unfolding run created_ids_append by (simp add: list_all_iff)
  next
    assume a: "created_ids ?o1 = [commit_count (repo s) + 1] \<and>
       commit_count (repo ?s1) = commit_count (repo s) + 1"
    then show ?thesis
      using ih unfolding run created_ids_append by (auto simp: list_all_iff)
  qed
qed

lemma unlink_commit_distinct:
  "distinct (map commit_id cs) \<Longrightarrow> cid \<in> set (map commit_id cs) \<Longrightarrow>
   unlink_commit cid cs = Some (filter (\<lambda>c. commit_id c \<noteq> cid) cs)"
proof (induction cs)
  case Nil
  then show ?case by simp
next
  case (Cons c cs)
  show ?case
  proof (cases "commit_id c = cid")
    case True
    then have "cid \<notin> set (map commit_id cs)" using Cons.prems by auto
    then have "filter (\<lambda>c. commit_id c \<noteq> cid) cs = cs"
      by (induction cs) auto
    with True show ?thesis by simp
  next
    case False
    then show ?thesis using Cons by auto
  qed
qed

lemma unlink_commit_absent:
  "cid \<notin> set (map commit_id cs) \<Longrightarrow> unlink_commit cid cs = None"
  by (induction cs) auto

lemma find_commit_filter_self [simp]:
  "find_commit cid (filter (\<lambda>c. commit_id c \<noteq> cid) cs) = None"
  by (induction cs) auto

lemma find_commit_filter_other:
  "cid' \<noteq> cid \<Longrightarrow> find_commit cid' (filter (\<lambda>c. commit_id c \<noteq> cid) cs) = find_commit cid' cs"
  by (induction cs) auto

lemma find_commit_Some_mem: "find_commit cid cs = Some c \<Longrightarrow> cid \<in> set (map commit_id cs)"
  by (induction cs) (auto split: if_splits)



lemma commit_staged_loop_file_count:
  "file_count c + int (length paths) \<le> INT_MAX \<Longrightarrow>
   file_count (fst (commit_staged_loop e paths (c, s))) = file_count c + int (length paths)"
proof (induction paths arbitrary: c s)
  case Nil
  then show ?case by simp
next
  case (Cons f rest)
  then show ?case by (simp add: Let_def int_incr_below)
qed

lemma commit_staged_file_counts:
  assumes "index_head s \<noteq> []" and "int (length (index_head s)) \<le> INT_MAX"
  shows "map file_count (head (repo (snd (commit_staged lims e msg s))))
         = int (length (index_head s)) # map file_count (head (repo s))"
  using assms
  by (simp add: commit_staged_def Let_def split_beta index_commit_message_frame
        commit_staged_loop_frame commit_staged_loop_file_count)

lemma save_commit_loop_file_count:
  "file_count c + int (length names) \<le> INT_MAX \<Longrightarrow>
   list_all (\<lambda>n. take 1 n \<noteq> ''.'' \<and> fs e (copy_trunc 512 (WORKING_DIR @ ''/'' @ n)) \<noteq> None) names \<Longrightarrow>
   file_count (fst (save_commit_loop e names (c, s))) = file_count c + int (length names)"
proof (induction names arbitrary: c s)
  case Nil
  then show ?case by simp
next
  case (Cons n rest)
  then show ?case by (auto simp: Let_def int_incr_below split: option.splits)
qed

lemma save_commit_file_counts:
  assumes "int (length (readdir_names e)) \<le> INT_MAX"
    and "list_all (\<lambda>n. take 1 n \<noteq> ''.'' \<and> fs e (copy_trunc 512 (WORKING_DIR @ ''/'' @ n)) \<noteq> None)
           (readdir_names e)"
  shows "map file_count (head (repo (snd (save_commit lims e msg s))))
         = int (length (readdir_names e)) # map file_count (head (repo s))"
  using assms
  by (simp add: save_commit_def Let_def split_beta index_commit_message_frame
        save_commit_loop_frame save_commit_loop_file_count)

lemma add_file_existing:
  assumes "fname \<noteq> []" and "hd fname = CHR ''/''" and "length fname < MAX_FILENAME"
    and "fs e fname \<noteq> None"
  shows "index_head (snd (add_file lims e (Some fname) s)) = fname # index_head s"
  using assms
  by (auto simp: add_file_def Let_def index_file_for_search_frame split: option.splits)

text \<open>When a loop writes outside the array of slots.\<close>

lemma commit_staged_loop_mark_mono:
  "out_of_bounds s \<Longrightarrow> out_of_bounds (snd (commit_staged_loop e paths (c, s)))"
  by (induction paths arbitrary: c s) (simp_all add: Let_def)


lemma commit_staged_loop_out_of_bounds:
  "0 \<le> file_count c \<Longrightarrow> file_count c \<le> MAX_FILES_PER_COMMIT \<Longrightarrow>
   MAX_FILES_PER_COMMIT < file_count c + int (length paths) \<Longrightarrow>
   out_of_bounds (snd (commit_staged_loop e paths (c, s)))"
proof (induction paths arbitrary: c s)
  case Nil
  then show ?case by simp
next
  case (Cons f rest)
  have lt: "file_count c < INT_MAX"
    using Cons.prems by (simp add: MAX_FILES_PER_COMMIT_def INT_MAX_def)
  show ?case
  proof (cases "slot_in_array c")
    case True
    then show ?thesis
      using Cons.prems lt
      by (simp add: Let_def Cons.IH int_incr_below slot_in_array_def)
  next
    case False
    then show ?thesis
      by (simp add: Let_def commit_staged_loop_mark_mono)
  qed
qed


lemma commit_staged_overflows:
  assumes "MAX_FILES_PER_COMMIT < int (length (index_head s))"
  shows "out_of_bounds (snd (commit_staged lims e msg s))"
proof -
  have "index_head s \<noteq> []" using assms(1) by (auto simp: MAX_FILES_PER_COMMIT_def)
  then show ?thesis
    using assms
    by (simp add: commit_staged_def Let_def split_beta index_commit_message_frame
          commit_staged_loop_out_of_bounds MAX_FILES_PER_COMMIT_def)
qed

lemma save_commit_loop_mark_mono:
  "out_of_bounds s \<Longrightarrow> out_of_bounds (snd (save_commit_loop e names (c, s)))"
  by (induction names arbitrary: c s) (simp_all add: Let_def split: option.splits)

lemma save_commit_loop_out_of_bounds:
  "0 \<le> file_count c \<Longrightarrow> file_count c \<le> MAX_FILES_PER_COMMIT \<Longrightarrow>
   MAX_FILES_PER_COMMIT < file_count c + int (length names) \<Longrightarrow>
   list_all (\<lambda>n. take 1 n \<noteq> ''.'' \<and> fs e (copy_trunc 512 (WORKING_DIR @ ''/'' @ n)) \<noteq> None) names \<Longrightarrow>
   out_of_bounds (snd (save_commit_loop e names (c, s)))"
proof (induction names arbitrary: c s)
  case Nil
  then show ?case by simp
next
  case (Cons n rest)
  have lt: "file_count c < INT_MAX"
    using Cons.prems by (simp add: MAX_FILES_PER_COMMIT_def INT_MAX_def)
  from Cons.prems(4) obtain body where rd: "take 1 n \<noteq> ''.''"
      "fs e (copy_trunc 512 (WORKING_DIR @ ''/'' @ n)) = Some body"
      "list_all (\<lambda>n. take 1 n \<noteq> ''.'' \<and> fs e (copy_trunc 512 (WORKING_DIR @ ''/'' @ n)) \<noteq> None) rest"
    by auto
  show ?case
  proof (cases "slot_in_array c")
    case True
    then show ?thesis
      using Cons.prems(1-3) lt rd
      by (simp add: Let_def Cons.IH int_incr_below slot_in_array_def)
  next
    case False
    then show ?thesis
      using rd by (simp add: Let_def save_commit_loop_mark_mono)
  qed
qed

lemma save_commit_overflows:
  assumes "MAX_FILES_PER_COMMIT < int (length (readdir_names e))"
    and "list_all (\<lambda>n. take 1 n \<noteq> ''.'' \<and> fs e (copy_trunc 512 (WORKING_DIR @ ''/'' @ n)) \<noteq> None)
           (readdir_names e)"
  shows "out_of_bounds (snd (save_commit lims e msg s))"
  using assms
  by (simp add: save_commit_def Let_def split_beta index_commit_message_frame
        save_commit_loop_out_of_bounds MAX_FILES_PER_COMMIT_def)


lemma stage_many:
  assumes "fname \<noteq> []" and "hd fname = CHR ''/''" and "length fname < MAX_FILENAME"
    and "fs e fname \<noteq> None"
  shows "index_head (snd (vcs_run lims (replicate n (Stage e (Some fname))) s))
         = replicate n fname @ index_head s"
proof (induction n arbitrary: s)
  case 0
  then show ?case by simp
next
  case (Suc n)
  have "index_head (snd (vcs_run lims (replicate (Suc n) (Stage e (Some fname))) s))
        = index_head (snd (vcs_run lims (replicate n (Stage e (Some fname)))
            (snd (add_file lims e (Some fname) s))))"
    by (simp add: split_beta)
  also have "\<dots> = replicate n fname @ fname # index_head s"
    using Suc add_file_existing [OF assms] by simp
  finally show ?case by (simp add: replicate_app_Cons_same)
qed


text \<open>
  \<open>repo_inv\<close> holds of every state the commands build, as long as the counter does not
  wrap.
\<close>

lemma add_file_mark:
  "out_of_bounds (snd (add_file lims e fname s)) = out_of_bounds s"
  by (simp add: add_file_def Let_def index_file_for_search_frame split: option.splits)

lemma stage_many_frame:
  "repo (snd (vcs_run lims (replicate n (Stage e f)) s)) = repo s"
  "out_of_bounds (snd (vcs_run lims (replicate n (Stage e f)) s)) = out_of_bounds s"
  by (induction n arbitrary: s; simp add: split_beta add_file_frame add_file_mark)+

lemma unlink_commit_sub:
  "unlink_commit cid cs = Some cs' \<Longrightarrow>
   set cs' \<subseteq> set cs \<and> (distinct (map commit_id cs) \<longrightarrow> distinct (map commit_id cs'))"
proof (induction cs arbitrary: cs')
  case Nil
  then show ?case by simp
next
  case (Cons c cs)
  show ?case
  proof (cases "commit_id c = cid")
    case True
    then show ?thesis using Cons.prems by auto
  next
    case False
    then obtain ds where ds: "unlink_commit cid cs = Some ds" "cs' = c # ds"
      using Cons.prems by auto
    from Cons.IH [OF ds(1)] ds(2) show ?thesis by auto
  qed
qed

lemma vcs_step_repo_inv:
  assumes "repo_inv s" and "commit_count (repo s) < INT_MAX"
  shows "repo_inv (snd (vcs_step lims x s))"
proof (cases x)
  case (Stage e fname)
  then show ?thesis using assms by (simp add: repo_inv_def add_file_frame)
next
  case (CommitStaged e msg)
  show ?thesis
  proof (cases "index_head s = []")
    case True
    then show ?thesis using CommitStaged assms by (simp add: commit_staged_empty)
  next
    case False
    from commit_staged_nonempty(4) [OF False, of lims e msg]
    obtain c where c: "head (repo (snd (commit_staged lims e msg s))) = c # head (repo s)"
      "commit_id c = int_incr (commit_count (repo s))"
      by blast
    then show ?thesis
      using CommitStaged assms commit_staged_nonempty(2) [OF False, of lims e msg]
      by (auto simp: repo_inv_def int_incr_below list_all_iff)
  qed
next
  case (SaveFromWorkingDirectory e msg)
  from save_commit_result(4) [of lims e msg s]
  obtain c where c: "head (repo (snd (save_commit lims e msg s))) = c # head (repo s)"
    "commit_id c = int_incr (commit_count (repo s))"
    by blast
  then show ?thesis
    using SaveFromWorkingDirectory assms save_commit_result(2) [of lims e msg s]
    by (auto simp: repo_inv_def int_incr_below list_all_iff)
next
  case (Delete cid)
  show ?thesis
  proof (cases "unlink_commit cid (head (repo s))")
    case None
    then show ?thesis using Delete assms by (simp add: delete_commit_def)
  next
    case (Some cs')
    from unlink_commit_sub [OF Some] show ?thesis
      using Delete assms Some by (auto simp: repo_inv_def delete_commit_def list_all_iff)
  qed
qed

lemma vcs_run_repo_inv:
  "repo_inv s \<Longrightarrow> commit_count (repo s) + int (length ops) \<le> INT_MAX \<Longrightarrow>
   repo_inv (snd (vcs_run lims ops s))"
proof (induction ops arbitrary: s)
  case Nil
  then show ?case by simp
next
  case (Cons x xs)
  have lt: "commit_count (repo s) < INT_MAX"
    using Cons.prems by simp
  have inv1: "repo_inv (snd (vcs_step lims x s))"
    using vcs_step_repo_inv [OF Cons.prems(1) lt] .
  have "commit_count (repo (snd (vcs_step lims x s))) + int (length xs) \<le> INT_MAX"
    using vcs_step_count [OF lt, of lims x] Cons.prems(2) by auto
  from Cons.IH [OF inv1 this] show ?case by (simp add: split_beta)
qed

lemma initial_state_repo_inv: "repo_inv (initial_state lims)"
  by (simp add: repo_inv_def initial_state_def)

subsection \<open>Scoring and ranking\<close>

lemma count_from_ge: "cnt \<le> count_from p pat cnt"
proof (induction p pat cnt rule: count_from.induct)
  case (1 p pat cnt)
  show ?case
  proof (cases "pat = []")
    case True
    then show ?thesis by (subst count_from.simps) simp
  next
    case False
    show ?thesis
    proof (cases "strstr p pat")
      case None
      then show ?thesis using False by (subst count_from.simps) simp
    next
      case (Some q)
      from "1.IH" [OF False Some] have "cnt + 1 \<le> count_from (drop (length pat) q) pat (cnt + 1)" .
      then show ?thesis using False Some by (subst count_from.simps) simp
    qed
  qed
qed

lemma count_occurrences_nonneg: "0 \<le> count_occurrences hay pat"
  using count_from_ge [of 0 hay pat] by (simp add: count_occurrences_def)

text \<open>
  What \<^verbatim>\<open>count_occurrences\<close> counts: the matches found from left to right, each search
  resuming behind the previous match, so that the matches do not overlap (the count times
  the length of the pattern fits into the text); the count is positive exactly when the
  pattern is not empty and occurs in the text.
\<close>

lemma strstr_Some_decompose: "strstr p pat = Some q \<Longrightarrow> \<exists>u. p = u @ q \<and> prefix pat q"
proof (induction p)
  case Nil
  then show ?case by (auto split: if_splits)
next
  case (Cons c cs)
  show ?case
  proof (cases "prefix pat (c # cs)")
    case True
    then show ?thesis using Cons.prems by auto
  next
    case False
    then have "strstr cs pat = Some q" using Cons.prems by simp
    from Cons.IH [OF this] obtain u where "cs = u @ q" "prefix pat q" by blast
    then have "c # cs = (c # u) @ q" by simp
    with \<open>prefix pat q\<close> show ?thesis by blast
  qed
qed

lemma strstr_None_iff: "strstr p pat = None \<longleftrightarrow> \<not> (\<exists>u v. p = u @ pat @ v)"
proof (induction p)
  case Nil
  then show ?case by auto
next
  case (Cons c cs)
  show ?case
  proof (cases "prefix pat (c # cs)")
    case True
    then obtain v where "c # cs = [] @ pat @ v" by (auto simp: prefix_def)
    then have "\<exists>u v. c # cs = u @ pat @ v" by blast
    with True show ?thesis by simp
  next
    case False
    have "(\<exists>u v. c # cs = u @ pat @ v) \<longleftrightarrow> (\<exists>u v. cs = u @ pat @ v)"
    proof
      assume "\<exists>u v. c # cs = u @ pat @ v"
      then obtain u v where uv: "c # cs = u @ pat @ v" by blast
      show "\<exists>u v. cs = u @ pat @ v"
      proof (cases u)
        case Nil
        then have "prefix pat (c # cs)" using uv by (simp add: prefix_def)
        with False show ?thesis by simp
      next
        case (Cons d u')
        then have "cs = u' @ pat @ v" using uv by simp
        then show ?thesis by blast
      qed
    next
      assume "\<exists>u v. cs = u @ pat @ v"
      then obtain u v where "cs = u @ pat @ v" by blast
      then have "c # cs = (c # u) @ pat @ v" by simp
      then show "\<exists>u v. c # cs = u @ pat @ v" by blast
    qed
    with False Cons.IH show ?thesis by simp
  qed
qed

lemma count_from_bound:
  "pat \<noteq> [] \<Longrightarrow> (count_from p pat cnt - cnt) * int (length pat) \<le> int (length p)"
proof (induction p pat cnt rule: count_from.induct)
  case (1 p pat cnt)
  show ?case
  proof (cases "strstr p pat")
    case None
    then show ?thesis using "1.prems" by (subst count_from.simps) simp
  next
    case (Some q)
    from strstr_Some_decompose [OF Some] obtain u where u: "p = u @ q" "prefix pat q" by blast
    then have len: "length pat + length (drop (length pat) q) \<le> length p"
      by (auto simp: prefix_def)
    from "1.IH" [OF "1.prems" Some "1.prems"]
    have "(count_from (drop (length pat) q) pat (cnt + 1) - (cnt + 1)) * int (length pat)
        \<le> int (length (drop (length pat) q))" .
    then have "(count_from (drop (length pat) q) pat (cnt + 1) - cnt) * int (length pat)
        \<le> int (length (drop (length pat) q)) + int (length pat)"
      by (simp add: algebra_simps)
    also have "\<dots> \<le> int (length p)" using len by simp
    finally show ?thesis using "1.prems" Some by (subst count_from.simps) simp
  qed
qed

lemma count_occurrences_bound:
  "count_occurrences hay pat * int (length pat) \<le> int (length hay)"
  using count_from_bound [of pat hay 0] by (simp add: count_occurrences_def)

lemma count_occurrences_pos_iff:
  "0 < count_occurrences hay pat \<longleftrightarrow> pat \<noteq> [] \<and> (\<exists>u v. hay = u @ pat @ v)"
proof (cases "pat = []")
  case True
  then show ?thesis by (simp add: count_occurrences_def)
next
  case False
  show ?thesis
  proof (cases "strstr hay pat")
    case None
    then have "count_from hay pat 0 = 0" using False by (subst count_from.simps) simp
    with None False show ?thesis
      using strstr_None_iff [of hay pat] by (simp add: count_occurrences_def)
  next
    case (Some q)
    have "1 \<le> count_from (drop (length pat) q) pat (0 + 1)"
      using count_from_ge [of "0 + 1" "drop (length pat) q" pat] by simp
    then have "0 < count_from hay pat 0"
      using False Some by (subst count_from.simps) simp
    moreover have "\<exists>u v. hay = u @ pat @ v"
      using strstr_None_iff [of hay pat] Some by simp
    ultimately show ?thesis using False by (simp add: count_occurrences_def)
  qed
qed

text \<open>The loop of \<^verbatim>\<open>count_occurrences\<close> finds the largest number of occurrences that do not overlap.\<close>

lemma join_with_Cons: "vs \<noteq> [] \<Longrightarrow> join_with pat (u # vs) = u @ pat @ join_with pat vs"
  by (cases vs) simp_all

lemma join_with_prepend:
  assumes "us \<noteq> []"
  shows "w @ join_with pat us = join_with pat ((w @ hd us) # tl us)"
proof (cases us)
  case Nil
  with assms show ?thesis by simp
next
  case (Cons u vs)
  then show ?thesis by (cases vs) simp_all
qed

lemma disjoint_occurrences_prepend:
  assumes "disjoint_occurrences r pat k"
  shows "disjoint_occurrences (w @ r) pat k"
proof -
  from assms obtain us where us: "length us = Suc k" "join_with pat us = r"
    by (auto simp: disjoint_occurrences_def)
  then have ne: "us \<noteq> []" by auto
  have "length ((w @ hd us) # tl us) = Suc k" using us(1) ne by simp
  moreover have "join_with pat ((w @ hd us) # tl us) = w @ r"
    using join_with_prepend [OF ne, of w pat] us(2) by simp
  ultimately show ?thesis unfolding disjoint_occurrences_def by blast
qed

lemma disjoint_occurrences_Suc:
  "disjoint_occurrences hay pat (Suc k) \<longleftrightarrow>
     (\<exists>u r. hay = u @ pat @ r \<and> disjoint_occurrences r pat k)"
proof
  assume "disjoint_occurrences hay pat (Suc k)"
  then obtain us where us: "length us = Suc (Suc k)" "join_with pat us = hay"
    by (auto simp: disjoint_occurrences_def)
  then obtain u vs where uv: "us = u # vs" "length vs = Suc k"
    by (cases us) auto
  then have "vs \<noteq> []" by auto
  then have "hay = u @ pat @ join_with pat vs"
    using us(2) uv(1) by (simp add: join_with_Cons)
  moreover have "disjoint_occurrences (join_with pat vs) pat k"
    using uv(2) unfolding disjoint_occurrences_def by blast
  ultimately show "\<exists>u r. hay = u @ pat @ r \<and> disjoint_occurrences r pat k" by blast
next
  assume "\<exists>u r. hay = u @ pat @ r \<and> disjoint_occurrences r pat k"
  then obtain u r vs where h: "hay = u @ pat @ r" "length vs = Suc k" "join_with pat vs = r"
    by (auto simp: disjoint_occurrences_def)
  then have "vs \<noteq> []" by auto
  then have "join_with pat (u # vs) = hay"
    using h by (simp add: join_with_Cons)
  moreover have "length (u # vs) = Suc (Suc k)" using h(2) by simp
  ultimately show "disjoint_occurrences hay pat (Suc k)"
    unfolding disjoint_occurrences_def by blast
qed

lemma disjoint_occurrences_0: "disjoint_occurrences hay pat 0"
proof -
  have "length [hay] = Suc 0 \<and> join_with pat [hay] = hay" by simp
  then show ?thesis unfolding disjoint_occurrences_def by blast
qed

lemma strstr_Some_shorter:
  assumes "pat \<noteq> []" and "strstr p pat = Some q"
  shows "length (drop (length pat) q) < length p"
proof -
  from strstr_Some_length [OF assms(2)] have "length q \<le> length p" "prefix pat q" by simp_all
  moreover from \<open>prefix pat q\<close> have "length pat \<le> length q" by (rule prefix_length_le)
  moreover from assms(1) have "0 < length pat" by simp
  ultimately have "length q - length pat < length p" by linarith
  then show ?thesis by simp
qed

lemma count_from_acc: "count_from p pat cnt = cnt + count_from p pat 0"
proof (induction p arbitrary: cnt rule: measure_induct_rule [of length])
  case (less p)
  show ?case
  proof (cases "pat = []")
    case True
    then show ?thesis by (simp add: count_from.simps [of p "[]"])
  next
    case False
    show ?thesis
    proof (cases "strstr p pat")
      case None
      then show ?thesis using False by (simp add: count_from.simps [of p pat])
    next
      case (Some q)
      let ?r = "drop (length pat) q"
      have sh: "length ?r < length p" using False Some by (rule strstr_Some_shorter)
      have a: "count_from ?r pat (cnt + 1) = cnt + 1 + count_from ?r pat 0"
        using less [OF sh, of "cnt + 1"] .
      have b: "count_from ?r pat (0 + 1) = 0 + 1 + count_from ?r pat 0"
        using less [OF sh, of "0 + 1"] .
      show ?thesis using False Some a b by (simp add: count_from.simps [of p pat])
    qed
  qed
qed

text \<open>The first match is the leftmost one: what lies behind any occurrence lies behind it.\<close>

lemma strstr_leftmost:
  assumes "strstr p pat = Some q" and "p = u @ pat @ r"
  shows "suffix r (drop (length pat) q)"
  using assms
proof (induction p arbitrary: u)
  case Nil
  then show ?case by (auto split: if_splits)
next
  case (Cons c cs)
  show ?case
  proof (cases "prefix pat (c # cs)")
    case True
    then have q: "q = c # cs" using Cons.prems(1) by simp
    from True obtain rest where rest: "c # cs = pat @ rest" by (auto simp: prefix_def)
    have "suffix r (c # cs)" using Cons.prems(2) by (metis suffixI append.assoc)
    moreover have "suffix rest (c # cs)" using rest by (metis suffixI)
    moreover have "length r \<le> length rest"
    proof -
      have "length (c # cs) = length u + length pat + length r"
        using Cons.prems(2) by (metis length_append add.assoc)
      moreover have "length (c # cs) = length pat + length rest"
        using rest by (metis length_append)
      ultimately show ?thesis by linarith
    qed
    ultimately have "suffix r rest" by (rule suffix_length_suffix)
    then show ?thesis using q rest by simp
  next
    case False
    then have u: "u \<noteq> []" using Cons.prems(2) by (cases u) (auto simp: prefix_def)
    then obtain u' where u': "u = c # u'" "cs = u' @ pat @ r"
      using Cons.prems(2) by (cases u) auto
    have "strstr cs pat = Some q" using False Cons.prems(1) by simp
    from Cons.IH [OF this u'(2)] show ?thesis .
  qed
qed

lemma greedy_reaches: "pat \<noteq> [] \<Longrightarrow> disjoint_occurrences p pat (nat (count_from p pat 0))"
proof (induction p rule: measure_induct_rule [of length])
  case (less p)
  show ?case
  proof (cases "strstr p pat")
    case None
    then have "count_from p pat 0 = 0" using less.prems by (simp add: count_from.simps [of p pat])
    then show ?thesis by (simp add: disjoint_occurrences_0)
  next
    case (Some q)
    let ?r = "drop (length pat) q"
    have sh: "length ?r < length p" using less.prems Some by (rule strstr_Some_shorter)
    from strstr_Some_decompose [OF Some] obtain u where u: "p = u @ q" "prefix pat q" by blast
    then have p: "p = u @ pat @ ?r" by (auto simp: prefix_def)
    have c: "count_from p pat 0 = 1 + count_from ?r pat 0"
      using less.prems Some count_from_acc [of ?r pat "0 + 1"]
      by (simp add: count_from.simps [of p pat])
    have nn: "0 \<le> count_from ?r pat 0" by (rule count_from_ge)
    have "disjoint_occurrences p pat (Suc (nat (count_from ?r pat 0)))"
      unfolding disjoint_occurrences_Suc using p less.IH [OF sh less.prems] by blast
    moreover have "nat (count_from p pat 0) = Suc (nat (count_from ?r pat 0))"
      using c nn by simp
    ultimately show ?thesis by simp
  qed
qed

lemma greedy_is_maximal:
  "pat \<noteq> [] \<Longrightarrow> disjoint_occurrences p pat k \<Longrightarrow> int k \<le> count_from p pat 0"
proof (induction p arbitrary: k rule: measure_induct_rule [of length])
  case (less p)
  show ?case
  proof (cases k)
    case 0
    then show ?thesis using count_from_ge [of 0 p pat] by simp
  next
    case (Suc k')
    have "disjoint_occurrences p pat (Suc k')" using less.prems(2) Suc by simp
    then obtain u r where ur: "p = u @ pat @ r" "disjoint_occurrences r pat k'"
      unfolding disjoint_occurrences_Suc by blast
    then have "strstr p pat \<noteq> None" using strstr_None_iff [of p pat] by blast
    then obtain q where q: "strstr p pat = Some q" by blast
    let ?r = "drop (length pat) q"
    have sh: "length ?r < length p" using less.prems(1) q by (rule strstr_Some_shorter)
    from strstr_leftmost [OF q ur(1)] obtain w where w: "?r = w @ r" by (auto simp: suffix_def)
    have "disjoint_occurrences ?r pat k'"
      unfolding w using ur(2) by (rule disjoint_occurrences_prepend)
    from less.IH [OF sh less.prems(1) this] have "int k' \<le> count_from ?r pat 0" .
    moreover have "count_from p pat 0 = 1 + count_from ?r pat 0"
      using less.prems(1) q count_from_acc [of ?r pat "0 + 1"]
      by (simp add: count_from.simps [of p pat])
    ultimately show ?thesis using Suc by simp
  qed
qed

lemma count_occurrences_spec: "count_occurrences hay pat = int (occurrence_count hay pat)"
proof (cases "pat = []")
  case True
  then show ?thesis by (simp add: count_occurrences_def occurrence_count_def)
next
  case False
  let ?S = "{k. disjoint_occurrences hay pat k}"
  let ?g = "nat (count_from hay pat 0)"
  have nn: "0 \<le> count_from hay pat 0" by (rule count_from_ge)
  have mem: "?g \<in> ?S" using greedy_reaches [OF False, of hay] by simp
  have ub: "k \<le> ?g" if "k \<in> ?S" for k
    using greedy_is_maximal [OF False, of hay k] that by simp
  have fin: "finite ?S"
  proof (rule finite_subset)
    show "?S \<subseteq> {..?g}" using ub by auto
  qed simp
  have "Max ?S = ?g"
    using fin mem ub by (intro Max_eqI) auto
  then show ?thesis using False nn by (simp add: count_occurrences_def occurrence_count_def)
qed

text \<open>\<^verbatim>\<open>to_lower_inplace\<close> is the lowercase copy.\<close>

lemma upper_letters: "''ABCDEFGHIJKLMNOPQRSTUVWXYZ'' = map char_of [65..<91::nat]"
  by code_simp

lemma lower_letters: "''abcdefghijklmnopqrstuvwxyz'' = map char_of [97..<123::nat]"
  by code_simp

lemma upper_letters_distinct: "distinct ''ABCDEFGHIJKLMNOPQRSTUVWXYZ''"
  by code_simp

lemma c_tolower_lower_letter: "c_tolower c = lower_letter c"
proof (cases "c_isupper c")
  case True
  define i where "i = (of_char c :: nat) - 65"
  have i: "i < 26" "(of_char c :: nat) = 65 + i"
    using True unfolding c_isupper_def i_def by linarith+
  have u: "''ABCDEFGHIJKLMNOPQRSTUVWXYZ'' ! i = c"
  proof -
    have "i < length [65..<91::nat]" using i(1) by (simp only: length_upt)
    then have "map char_of [65..<91::nat] ! i = char_of ([65..<91::nat] ! i)" by (rule nth_map)
    moreover have "[65..<91::nat] ! i = 65 + i" using i(1) by (intro nth_upt) simp
    moreover have "char_of (65 + i) = c" unfolding i(2) [symmetric] by (rule char_of_char)
    ultimately show ?thesis unfolding upper_letters by (simp only:)
  qed
  have l: "''abcdefghijklmnopqrstuvwxyz'' ! i = char_of ((of_char c :: nat) + 32)"
  proof -
    have "i < length [97..<123::nat]" using i(1) by (simp only: length_upt)
    then have "map char_of [97..<123::nat] ! i = char_of ([97..<123::nat] ! i)" by (rule nth_map)
    moreover have "[97..<123::nat] ! i = 97 + i" using i(1) by (intro nth_upt) simp
    moreover have "(of_char c :: nat) + 32 = 97 + i" using i(2) by simp
    ultimately show ?thesis unfolding lower_letters by (simp only:)
  qed
  have "map_of (zip ''ABCDEFGHIJKLMNOPQRSTUVWXYZ'' ''abcdefghijklmnopqrstuvwxyz'')
          (''ABCDEFGHIJKLMNOPQRSTUVWXYZ'' ! i) = Some (''abcdefghijklmnopqrstuvwxyz'' ! i)"
    using i(1) by (intro map_of_zip_nth upper_letters_distinct) simp_all
  then show ?thesis
    unfolding u l using True by (simp add: c_tolower_def lower_letter_def)
next
  case False
  have "c \<notin> set ''ABCDEFGHIJKLMNOPQRSTUVWXYZ''"
  proof
    assume "c \<in> set ''ABCDEFGHIJKLMNOPQRSTUVWXYZ''"
    then obtain n :: nat where n: "65 \<le> n" "n < 91" "c = char_of n"
      unfolding upper_letters by auto
    then have "(of_char c :: nat) = n" by (simp add: of_char_of)
    with n False show False by (simp add: c_isupper_def)
  qed
  moreover have "map fst (zip ''ABCDEFGHIJKLMNOPQRSTUVWXYZ'' ''abcdefghijklmnopqrstuvwxyz'')
      = ''ABCDEFGHIJKLMNOPQRSTUVWXYZ''"
    by (rule map_fst_zip) simp
  ultimately have "c \<notin> fst ` set (zip ''ABCDEFGHIJKLMNOPQRSTUVWXYZ'' ''abcdefghijklmnopqrstuvwxyz'')"
    by (metis set_map)
  then have "map_of (zip ''ABCDEFGHIJKLMNOPQRSTUVWXYZ'' ''abcdefghijklmnopqrstuvwxyz'') c = None"
    by (simp only: map_of_eq_None_iff not_False_eq_True)
  then show ?thesis using False by (simp add: c_tolower_def lower_letter_def)
qed

lemma score_tokens_sum:
  "score_tokens ttl dsc ts (a, m) =
     (a + (\<Sum>t\<leftarrow>ts. real_of_int (count_occurrences ttl t * 3 + count_occurrences dsc t * 1)),
      m + int (length (filter (\<lambda>t. count_occurrences ttl t > 0 \<or> count_occurrences dsc t > 0) ts)))"
  by (induction ts arbitrary: a m) (simp_all add: Let_def)

lemma to_lower_inplace_spec: "to_lower_inplace s = map lower_letter s"
  by (simp add: to_lower_inplace_def c_tolower_lower_letter)

lemma copy_trunc_fits: "length s < n \<Longrightarrow> copy_trunc n s = s"
  by (simp add: copy_trunc_def)

lemma score_document_spec:
  assumes "fits_working_copies lims doc"
  shows "score_document lims tokens doc = spec_raw_score tokens doc"
proof -
  have t: "to_lower_inplace (copy_trunc (MAX_TITLE_LENGTH lims) (title doc))
      = map lower_letter (title doc)"
    and d: "to_lower_inplace (copy_trunc (MAX_DESCRIPTION_LENGTH lims) (description doc))
      = map lower_letter (description doc)"
    using assms by (simp_all add: fits_working_copies_def copy_trunc_fits to_lower_inplace_spec)
  show ?thesis
    unfolding score_document_def t d
    by (simp add: spec_raw_score_def spec_title_hits_def spec_body_hits_def
          score_tokens_sum count_occurrences_spec Let_def)
qed

lemma spec_raw_score_nonneg: "0 \<le> spec_raw_score tokens doc"
proof -
  have a: "0 \<le> (\<Sum>t\<leftarrow>tokens. real (spec_title_hits doc t * 3 + spec_body_hits doc t * 1))"
    by (rule sum_list_nonneg) auto
  show ?thesis
    unfolding spec_raw_score_def Let_def using a by simp
qed

lemma max_raw_loop_Max: "max_raw_loop scores m = Max (insert m (set scores))"
proof (induction scores arbitrary: m)
  case Nil
  then show ?case by simp
next
  case (Cons s scores)
  have "(if m < s then s else m) = max m s" by (simp add: max_def)
  then have "max_raw_loop (s # scores) m = Max (insert (max m s) (set scores))"
    using Cons by simp
  also have "\<dots> = Max (insert m (insert s (set scores)))"
    by (cases "set scores = {}") (simp_all add: max.assoc)
  finally show ?case by simp
qed

lemma floor_max_raw_spec:
  assumes "scores \<noteq> []" and "list_all (\<lambda>s. 0 \<le> s) scores"
  shows "floor_max_raw scores = max (Max (set scores)) (1 / 1000)"
proof -
  have "Max (insert 0 (set scores)) = max 0 (Max (set scores))"
    using assms(1) by simp
  also have "\<dots> = Max (set scores)"
    using assms by (cases scores) (auto simp: list_all_iff max_def Max_ge_iff)
  finally show ?thesis
    by (simp add: floor_max_raw_def max_raw_loop_Max Let_def max_def)
qed

lemma floor_max_raw_bounds:
  "0 < floor_max_raw scores" "s \<in> set scores \<Longrightarrow> s \<le> floor_max_raw scores"
proof -
  show "0 < floor_max_raw scores"
    by (simp add: floor_max_raw_def Let_def)
  assume "s \<in> set scores"
  then have "s \<le> Max (insert 0 (set scores))" by simp
  then show "s \<le> floor_max_raw scores"
    by (simp add: floor_max_raw_def max_raw_loop_Max Let_def)
qed

lemma rank_documents_length: "length (rank_documents lims tokens docs) = length docs"
  by (simp add: rank_documents_def Let_def)

lemma rank_documents_nth:
  assumes "i < length docs"
  shows "rank_documents lims tokens docs ! i =
     (docs ! i)\<lparr>relevance_score := score_document lims tokens (docs ! i)
        / floor_max_raw (map (score_document lims tokens) docs)\<rparr>"
  using assms by (simp add: rank_documents_def Let_def)

lemma rank_documents_spec:
  assumes "i < length docs" and "list_all (fits_working_copies lims) docs"
  shows "rank_documents lims tokens docs ! i =
           (docs ! i)\<lparr>relevance_score := spec_relevance tokens docs (docs ! i)\<rparr>"
    and "0 \<le> relevance_score (rank_documents lims tokens docs ! i)"
    and "relevance_score (rank_documents lims tokens docs ! i) \<le> 1"
proof -
  let ?scores = "map (score_document lims tokens) docs"
  have eq: "?scores = map (spec_raw_score tokens) docs"
    using assms(2) by (simp add: list_all_iff score_document_spec)
  have fit: "fits_working_copies lims (docs ! i)"
    using assms by (simp add: list_all_length)
  have ne: "?scores \<noteq> []" using assms(1) by auto
  have nn: "list_all (\<lambda>s. 0 \<le> s) ?scores"
    unfolding eq by (simp add: list_all_iff spec_raw_score_nonneg)
  have fl: "floor_max_raw ?scores = max (Max (set (map (spec_raw_score tokens) docs))) (1 / 1000)"
    using floor_max_raw_spec [OF ne nn] unfolding eq .
  show "rank_documents lims tokens docs ! i =
           (docs ! i)\<lparr>relevance_score := spec_relevance tokens docs (docs ! i)\<rparr>"
    using rank_documents_nth [OF assms(1), of lims tokens] fl
    by (simp add: spec_relevance_def score_document_spec [OF fit])
  have mem: "score_document lims tokens (docs ! i) \<in> set ?scores"
    using assms(1) by simp
  have le: "score_document lims tokens (docs ! i) \<le> floor_max_raw ?scores"
    using floor_max_raw_bounds(2) [OF mem] .
  have pos: "0 < floor_max_raw ?scores"
    by (rule floor_max_raw_bounds(1))
  have s0: "0 \<le> score_document lims tokens (docs ! i)"
    by (simp add: score_document_spec [OF fit] spec_raw_score_nonneg)
  show "0 \<le> relevance_score (rank_documents lims tokens docs ! i)"
    using rank_documents_nth [OF assms(1), of lims tokens] s0 pos by simp
  show "relevance_score (rank_documents lims tokens docs ! i) \<le> 1"
    using rank_documents_nth [OF assms(1), of lims tokens] le pos by simp
qed



lemma compare_suggestions_le:
  "compare_suggestions a b \<le> 0 \<longleftrightarrow> score_r b \<le> score_r a"
  by (simp add: compare_suggestions_def)

lemma search_and_rank_ranked:
  assumes "g_search_engine_initialized st" and "g_document_count st \<noteq> 0" and "0 < mx"
  shows "search_and_rank qs lims ms (Some q) True mx st =
     (let ranked = rank_documents lims (query_tokens lims q)
                     (take (nat (g_document_count st)) (g_documents st));
          n_out = (if int (length ranked) < mx then int (length ranked) else mx);
          total = int_incr (g_total_queries st)
      in \<lparr>out_count = n_out,
          results = take (nat n_out) (qs cmp_results_descending ranked),
          printed = [Search_log q n_out ms],
          engine = st\<lparr>g_total_queries := total,
             g_avg_response_time :=
               (g_avg_response_time st * real_of_int (total - 1) + ms) / real_of_int total\<rparr>\<rparr>)"
  using assms by (simp add: search_and_rank_def Let_def)


subsection \<open>The two sorting routines keep the promise of qsort\<close>

lemma mset_insert_by: "mset (insert_by cmp x ys) = add_mset x (mset ys)"
  by (induction ys) simp_all

lemma set_insert_by: "set (insert_by cmp x ys) = insert x (set ys)"
  by (induction ys) auto

lemma sorted_insert_by:
  assumes total: "\<And>a b. 0 < cmp a b \<Longrightarrow> cmp b a \<le> 0"
    and trans: "\<And>a b c. cmp a b \<le> 0 \<Longrightarrow> cmp b c \<le> 0 \<Longrightarrow> cmp a c \<le> 0"
  shows "sorted_wrt (\<lambda>a b. cmp a b \<le> 0) ys \<Longrightarrow> sorted_wrt (\<lambda>a b. cmp a b \<le> 0) (insert_by cmp x ys)"
proof (induction ys)
  case Nil
  then show ?case by simp
next
  case (Cons y ys)
  show ?case
  proof (cases "cmp x y \<le> 0")
    case True
    then have "\<forall>z\<in>set ys. cmp x z \<le> 0"
      using Cons.prems trans by auto
    with True Cons.prems show ?thesis by simp
  next
    case False
    then have "cmp y x \<le> 0" using total [of x y] by simp
    with False Cons show ?thesis by (auto simp: set_insert_by)
  qed
qed

lemma qsort_spec_stable_qsort:
  assumes "\<And>a b. 0 < cmp a b \<Longrightarrow> cmp b a \<le> 0"
    and "\<And>a b c. cmp a b \<le> 0 \<Longrightarrow> cmp b c \<le> 0 \<Longrightarrow> cmp a c \<le> 0"
  shows "qsort_spec cmp stable_qsort"
proof -
  have "mset (foldr (insert_by cmp) xs []) = mset xs \<and>
        sorted_wrt (\<lambda>a b. cmp a b \<le> 0) (foldr (insert_by cmp) xs [])" for xs
    by (induction xs) (simp_all add: mset_insert_by sorted_insert_by [OF assms])
  then show ?thesis by (simp add: qsort_spec_def stable_qsort_def)
qed

lemma qsort_spec_reversing_qsort:
  assumes "\<And>a b. 0 < cmp a b \<Longrightarrow> cmp b a \<le> 0"
    and "\<And>a b c. cmp a b \<le> 0 \<Longrightarrow> cmp b c \<le> 0 \<Longrightarrow> cmp a c \<le> 0"
  shows "qsort_spec cmp reversing_qsort"
proof -
  have "sorted_wrt (\<lambda>a b. cmp a b \<le> 0) acc \<Longrightarrow>
        mset (fold (insert_by cmp) xs acc) = mset xs + mset acc \<and>
        sorted_wrt (\<lambda>a b. cmp a b \<le> 0) (fold (insert_by cmp) xs acc)" for xs acc
    by (induction xs arbitrary: acc) (simp_all add: mset_insert_by sorted_insert_by [OF assms])
  from this [of "[]"] show ?thesis by (simp add: qsort_spec_def reversing_qsort_def)
qed

lemma qsort_spec_results:
  "qsort_spec cmp_results_descending stable_qsort"
  "qsort_spec cmp_results_descending reversing_qsort"
  by (rule qsort_spec_stable_qsort qsort_spec_reversing_qsort;
      simp add: cmp_results_descending_def split: if_splits)+





lemma qsort_spec_suggestions:
  "qsort_spec compare_suggestions stable_qsort"
  "qsort_spec compare_suggestions reversing_qsort"
  by (rule qsort_spec_stable_qsort qsort_spec_reversing_qsort;
      simp add: compare_suggestions_def split: if_splits)+

subsection \<open>The autocomplete trie\<close>

lemma take_take_append: "take n xs @ take (n - length (take n xs)) ys = take n (xs @ ys)"
  by (simp add: min_def)

lemma take_after_entry:
  assumes "length e \<le> 1" and "int (length acc) < mx"
  shows "(acc @ e) @ take (nat (mx - int (length (acc @ e)))) r
         = acc @ take (nat (mx - int (length acc))) (e @ r)"
proof -
  have "nat (mx - int (length (acc @ e))) = nat (mx - int (length acc)) - length e"
    by simp
  moreover have "length e \<le> nat (mx - int (length acc))"
    using assms by simp
  ultimately show ?thesis by simp
qed

lemma children_loop_take:
  assumes "\<And>i child acc. i \<in> set js \<Longrightarrow> cs i = Some child \<Longrightarrow>
             step child acc = acc @ take (nat (mx - int (length acc))) (found child)"
  shows "children_loop (\<lambda>i. map_option step (cs i)) js mx acc
         = acc @ take (nat (mx - int (length acc)))
             (concat (map (\<lambda>i. case map_option found (cs i) of None \<Rightarrow> [] | Some xs \<Rightarrow> xs) js))"
  using assms
proof (induction js arbitrary: acc)
  case Nil
  then show ?case by simp
next
  case (Cons i js)
  let ?rest = "concat (map (\<lambda>i. case map_option found (cs i) of None \<Rightarrow> [] | Some xs \<Rightarrow> xs) js)"
  show ?case
  proof (cases "int (length acc) < mx")
    case False
    then show ?thesis by simp
  next
    case True
    let ?n = "nat (mx - int (length acc))"
    let ?here = "case map_option found (cs i) of None \<Rightarrow> [] | Some xs \<Rightarrow> xs"
    let ?acc' = "case map_option step (cs i) of None \<Rightarrow> acc | Some k \<Rightarrow> k acc"
    have acc': "?acc' = acc @ take ?n ?here"
    proof (cases "cs i")
      case None
      then show ?thesis by simp
    next
      case (Some child)
      then show ?thesis using Cons.prems [of i child acc] by simp
    qed
    have ih: "children_loop (\<lambda>i. map_option step (cs i)) js mx ?acc'
        = ?acc' @ take (nat (mx - int (length ?acc'))) ?rest"
    proof (rule Cons.IH)
      fix j child a
      assume "j \<in> set js" and "cs j = Some child"
      then show "step child a = a @ take (nat (mx - int (length a))) (found child)"
        using Cons.prems [of j child a] by simp
    qed
    have n': "nat (mx - int (length (acc @ take ?n ?here))) = ?n - length (take ?n ?here)"
      by simp
    have "children_loop (\<lambda>i. map_option step (cs i)) (i # js) mx acc
        = children_loop (\<lambda>i. map_option step (cs i)) js mx ?acc'"
      using True by (simp only: children_loop.simps if_True)
    also have "\<dots> = ?acc' @ take (nat (mx - int (length ?acc'))) ?rest"
      by (rule ih)
    also have "\<dots> = (acc @ take ?n ?here) @ take (?n - length (take ?n ?here)) ?rest"
      unfolding acc' n' by (rule refl)
    also have "\<dots> = acc @ take ?n (?here @ ?rest)"
      by (simp only: append_assoc take_take_append)
    also have "?here @ ?rest
        = concat (map (\<lambda>i. case map_option found (cs i) of None \<Rightarrow> [] | Some xs \<Rightarrow> xs) (i # js))"
      by (simp only: list.map concat.simps)
    finally show ?thesis .
  qed
qed

lemma collect_take:
  "collect_suggestions_from_trie node lims mx acc
     = acc @ take (nat (mx - int (length acc))) (all_matches node lims)"
proof (induction node arbitrary: acc)
  case (Trie_Node eow sug sc fr lu cs)
  show ?case
  proof (cases "int (length acc) \<ge> mx")
    case True
    then show ?thesis by simp
  next
    case False
    let ?entry = "case sug of
           Some s \<Rightarrow>
             if eow
             then [\<lparr>suggestion_r = copy_trunc (MAX_SUGGESTION_LENGTH lims) s,
                    score_r = sc, frequency_r = fr, last_used_r = lu, is_trending = False\<rparr>]
             else []
         | None \<Rightarrow> []"
    let ?acc1 = "acc @ ?entry"
    have acc1: "(case sug of
                  Some s \<Rightarrow>
                    if eow
                    then acc @ [\<lparr>suggestion_r = copy_trunc (MAX_SUGGESTION_LENGTH lims) s,
                                 score_r = sc, frequency_r = fr, last_used_r = lu,
                                 is_trending = False\<rparr>]
                    else acc
                | None \<Rightarrow> acc) = ?acc1"
      by (simp split: option.splits)
    have le1: "length ?entry \<le> 1"
      by (simp split: option.splits)
    have step: "collect_suggestions_from_trie child lims mx a
        = a @ take (nat (mx - int (length a))) (all_matches child lims)"
      if "cs i = Some child" for i child a
      using Trie_Node.IH [of "Some child" child a] that
      by (metis option.set_intros rangeI)
    let ?rest = "concat (map (\<lambda>i. case map_option (\<lambda>child. all_matches child lims) (cs i) of
                              None \<Rightarrow> [] | Some found \<Rightarrow> found) [0..<128])"
    have loop: "children_loop
               (\<lambda>i. map_option (\<lambda>child. collect_suggestions_from_trie child lims mx) (cs i))
               [0..<128] mx ?acc1
        = ?acc1 @ take (nat (mx - int (length ?acc1))) ?rest"
      by (rule children_loop_take
            [where step = "\<lambda>child. collect_suggestions_from_trie child lims mx"
               and found = "\<lambda>child. all_matches child lims"])
         (rule step)
    have "collect_suggestions_from_trie (Trie_Node eow sug sc fr lu cs) lims mx acc
        = ?acc1 @ take (nat (mx - int (length ?acc1))) ?rest"
      using False loop unfolding collect_suggestions_from_trie.simps acc1 by simp
    also have "\<dots> = acc @ take (nat (mx - int (length acc))) (?entry @ ?rest)"
      using le1 False by (intro take_after_entry) simp_all
    also have "?entry @ ?rest = all_matches (Trie_Node eow sug sc fr lu cs) lims"
      by (simp only: all_matches.simps)
    finally show ?thesis .
  qed
qed

lemma c_isalnum_lt_128: "c_isalnum c \<Longrightarrow> (of_char c :: nat) < 128"
  by (auto simp: c_isalnum_def c_isdigit_def c_isupper_def c_islower_def)

lemma c_tolower_idem: "c_tolower (c_tolower c) = c_tolower c"
proof (cases "c_isupper c")
  case True
  then have "(of_char (char_of ((of_char c :: nat) + 32)) :: nat) = of_char c + 32"
    by (simp add: c_isupper_def)
  then have "\<not> c_isupper (char_of ((of_char c :: nat) + 32))"
    using True by (simp add: c_isupper_def)
  then show ?thesis using True by (simp add: c_tolower_def)
next
  case False
  then show ?thesis by (simp add: c_tolower_def)
qed

lemma normal_form_chars:
  "c \<in> set (normal_form s) \<Longrightarrow> c_isalnum c \<and> c_tolower c = c"
  by (auto simp: normal_form_def c_tolower_idem)

lemma map_c_tolower_normal_form:
  "set p \<subseteq> set (normal_form s) \<Longrightarrow> map c_tolower p = p"
  by (induction p) (auto dest: normal_form_chars)

lemma walk_prefix_append:
  "walk_prefix (p @ q) node = (case walk_prefix p node of None \<Rightarrow> None | Some m \<Rightarrow> walk_prefix q m)"
  by (induction p arbitrary: node) (auto simp: Let_def split: option.splits)

lemma all_matches_child:
  assumes "children node i = Some child" and "i < 128"
  shows "set (all_matches child lims) \<subseteq> set (all_matches node lims)"
proof (cases node)
  case (Trie_Node eow sug sc fr lu cs)
  have "i \<in> set [0..<128]" using assms(2) by simp
  moreover have "(case map_option (\<lambda>child. all_matches child lims) (cs i) of
      None \<Rightarrow> [] | Some found \<Rightarrow> found) = all_matches child lims"
    using assms(1) Trie_Node by simp
  ultimately have "set (all_matches child lims) \<subseteq>
      set (concat (map (\<lambda>i. case map_option (\<lambda>child. all_matches child lims) (cs i) of
                              None \<Rightarrow> [] | Some found \<Rightarrow> found) [0..<128]))"
    unfolding set_concat by (metis (no_types, lifting) UN_upper image_eqI list.set_map)
  then show ?thesis
    unfolding Trie_Node all_matches.simps by auto
qed

lemma all_matches_descend:
  "walk_prefix p node = Some n \<Longrightarrow> set (all_matches n lims) \<subseteq> set (all_matches node lims)"
proof (induction p arbitrary: node)
  case Nil
  then show ?case by simp
next
  case (Cons ch rest)
  from Cons.prems obtain child where c: "(of_char ch :: nat) < 128"
      "children node (of_char ch) = Some child" "walk_prefix rest child = Some n"
    by (auto simp: Let_def split: if_splits option.splits)
  from Cons.IH [OF c(3)] all_matches_child [OF c(2) c(1)] show ?case by blast
qed

lemma all_matches_here:
  assumes "is_end_of_word n" and "suggestion n = Some s"
  shows "\<lparr>suggestion_r = copy_trunc (MAX_SUGGESTION_LENGTH lims) s, score_r = score n,
          frequency_r = frequency n, last_used_r = last_used n, is_trending = False\<rparr>
         \<in> set (all_matches n lims)"
  using assms by (cases n) simp

lemma walk_insert_key:
  "\<exists>n. walk_prefix (normal_form s) (insert_suggestion_into_trie s sug sc tm node) = Some n \<and>
       is_end_of_word n \<and> suggestion n = Some sug \<and> score n = sc \<and> last_used n = tm"
proof (induction s arbitrary: node)
  case Nil
  then show ?case by (simp add: normal_form_def)
next
  case (Cons ch rest)
  show ?case
  proof (cases "c_isalnum (c_tolower ch)")
    case False
    then show ?thesis using Cons [of node] by (simp add: normal_form_def Let_def)
  next
    case True
    let ?child = "case children node (of_char (c_tolower ch)) of
                     None \<Rightarrow> create_trie_node | Some child \<Rightarrow> child"
    from Cons [of ?child] obtain n where
      n: "walk_prefix (normal_form rest) (insert_suggestion_into_trie rest sug sc tm ?child) = Some n"
         "is_end_of_word n" "suggestion n = Some sug" "score n = sc" "last_used n = tm"
      by blast
    have "walk_prefix (normal_form (ch # rest))
            (insert_suggestion_into_trie (ch # rest) sug sc tm node) = Some n"
      using True n(1) c_isalnum_lt_128 [OF True]
      by (simp add: normal_form_def Let_def)
    with n show ?thesis by blast
  qed
qed

lemma insert_preserves:
  assumes "normal_form s' \<noteq> k" and "walk_prefix k node = Some n"
  shows "\<exists>n'. walk_prefix k (insert_suggestion_into_trie s' sug sc tm node) = Some n' \<and>
           is_end_of_word n' = is_end_of_word n \<and> suggestion n' = suggestion n \<and>
           score n' = score n \<and> frequency n' = frequency n \<and> last_used n' = last_used n"
  using assms
proof (induction s' arbitrary: k node n)
  case Nil
  then obtain d k' where k: "k = d # k'"
    by (cases k) (auto simp: normal_form_def)
  with Nil.prems(2) show ?case by (auto simp: Let_def split: if_splits)
next
  case (Cons ch rest)
  show ?case
  proof (cases "c_isalnum (c_tolower ch)")
    case False
    then have "normal_form rest \<noteq> k"
      using Cons.prems(1) by (simp add: normal_form_def)
    from Cons.IH [OF this Cons.prems(2)] False show ?thesis by (simp add: Let_def)
  next
    case True
    let ?c = "c_tolower ch"
    let ?child = "case children node (of_char ?c) of
                     None \<Rightarrow> create_trie_node | Some child \<Rightarrow> child"
    have nf: "normal_form (ch # rest) = ?c # normal_form rest"
      using True by (simp add: normal_form_def)
    show ?thesis
    proof (cases k)
      case Nil
      then show ?thesis using True Cons.prems(2) by (simp add: Let_def)
    next
      case (Cons d k')
      from Cons.prems(2) Cons obtain t where t: "(of_char d :: nat) < 128"
          "children node (of_char d) = Some t" "walk_prefix k' t = Some n"
        by (auto simp: Let_def split: if_splits option.splits)
      show ?thesis
      proof (cases "d = ?c")
        case same: True
        then have "normal_form rest \<noteq> k'"
          using Cons.prems(1) nf Cons by simp
        moreover have "?child = t" using t(2) same by simp
        ultimately obtain n' where
          "walk_prefix k' (insert_suggestion_into_trie rest sug sc tm ?child) = Some n'"
          "is_end_of_word n' = is_end_of_word n" "suggestion n' = suggestion n"
          "score n' = score n" "frequency n' = frequency n" "last_used n' = last_used n"
          using Cons.IH [of k' t n] t(3) by auto
        then show ?thesis
          using True Cons same t(1) by (auto simp: Let_def)
      next
        case False
        then have "(of_char d :: nat) \<noteq> of_char ?c"
          by simp
        then show ?thesis
          using True Cons t by (auto simp: Let_def)
      qed
    qed
  qed
qed

lemma holds_after_insert:
  assumes "s \<noteq> []"
  shows "holds_suggestion (ctx_root (snd (add_autocomplete_suggestion e (Some s) sc src ctx))) s
           (if sc > 0 then sc else calculate_suggestion_score s src)"
proof -
  let ?final = "if sc > 0 then sc else calculate_suggestion_score s src"
  from walk_insert_key [of s s ?final "now e" "ctx_root ctx"] obtain n where
    "walk_prefix (normal_form s) (insert_suggestion_into_trie s s ?final (now e) (ctx_root ctx)) = Some n"
    "is_end_of_word n" "suggestion n = Some s" "score n = ?final"
    by blast
  then show ?thesis
    using assms by (simp add: holds_suggestion_def add_autocomplete_suggestion_def Let_def)
qed

lemma holds_preserved:
  assumes "holds_suggestion (ctx_root ctx) s sc"
    and "case sug of None \<Rightarrow> True | Some t \<Rightarrow> normal_form t \<noteq> normal_form s"
  shows "holds_suggestion (ctx_root (snd (add_autocomplete_suggestion e' sug sc' src' ctx))) s sc"
proof (cases sug)
  case None
  then show ?thesis using assms(1) by (simp add: add_autocomplete_suggestion_def)
next
  case (Some t)
  show ?thesis
  proof (cases "length t = 0")
    case True
    then show ?thesis using assms(1) Some by (simp add: add_autocomplete_suggestion_def)
  next
    case False
    from assms(1) obtain n where n: "walk_prefix (normal_form s) (ctx_root ctx) = Some n"
        "is_end_of_word n" "suggestion n = Some s" "score n = sc"
      by (auto simp: holds_suggestion_def split: option.splits)
    have ne: "normal_form t \<noteq> normal_form s" using assms(2) Some by simp
    let ?final = "if sc' > 0 then sc' else calculate_suggestion_score t src'"
    from insert_preserves [OF ne n(1), of t ?final "now e'"] n(2-4)
    have "holds_suggestion (insert_suggestion_into_trie t t ?final (now e') (ctx_root ctx)) s sc"
      by (auto simp: holds_suggestion_def)
    then show ?thesis
      using Some False by (simp add: add_autocomplete_suggestion_def Let_def)
  qed
qed

lemma holds_ac_run:
  "holds_suggestion (ctx_root ctx) s sc \<Longrightarrow>
   list_all (\<lambda>(e', sug, sc', src'). case sug of None \<Rightarrow> True
                | Some t \<Rightarrow> normal_form t \<noteq> normal_form s) later \<Longrightarrow>
   holds_suggestion (ctx_root (ac_run later ctx)) s sc"
proof (induction later arbitrary: ctx)
  case Nil
  then show ?case by simp
next
  case (Cons x later)
  obtain e' sug sc' src' where x: "x = (e', sug, sc', src')"
    by (cases x) auto
  have "holds_suggestion (ctx_root (snd (add_autocomplete_suggestion e' sug sc' src' ctx))) s sc"
    using holds_preserved [OF Cons.prems(1)] Cons.prems(2) x by simp
  from Cons.IH [OF this] Cons.prems(2) x show ?case by simp
qed

lemma normalize_prefix_of_key:
  assumes "prefix p (normal_form s)"
  shows "prefix (normalize_prefix lims p) (normal_form s)"
proof -
  have sub: "set (copy_trunc (MAX_QUERY_LENGTH lims) p) \<subseteq> set (normal_form s)"
    using assms set_take_subset [of "MAX_QUERY_LENGTH lims - 1" p] set_mono_prefix [OF assms]
    by (auto simp: copy_trunc_def)
  have "normalize_prefix lims p = take (MAX_QUERY_LENGTH lims - 1) p"
    using map_c_tolower_normal_form [OF sub] by (simp add: normalize_prefix_def copy_trunc_def)
  moreover have "prefix (take (MAX_QUERY_LENGTH lims - 1) p) p"
    by (rule take_is_prefix)
  ultimately show ?thesis using assms by (metis prefix_order.order_trans)
qed

lemma get_suggestions_eq:
  "get_autocomplete_suggestions qs lims ctx (Some q) True mx =
     (case walk_prefix (normalize_prefix lims q) (ctx_root ctx) of
        None \<Rightarrow> []
      | Some current \<Rightarrow> qs compare_suggestions (take (nat mx) (all_matches current lims)))"
  by (simp add: get_autocomplete_suggestions_def collect_take split: option.splits)

lemma suggest_contains:
  assumes qs: "qsort_spec compare_suggestions qs"
    and holds: "holds_suggestion (ctx_root ctx) s sc"
    and pre: "prefix p (normal_form s)"
    and room: "int (length (matches_under lims ctx p)) \<le> mx"
  shows "\<exists>r \<in> set (get_autocomplete_suggestions qs lims ctx (Some p) True mx).
           suggestion_r r = copy_trunc (MAX_SUGGESTION_LENGTH lims) s \<and> score_r r = sc"
proof -
  from holds obtain n where n: "walk_prefix (normal_form s) (ctx_root ctx) = Some n"
      "is_end_of_word n" "suggestion n = Some s" "score n = sc"
    by (auto simp: holds_suggestion_def split: option.splits)
  from normalize_prefix_of_key [OF pre, of lims] obtain rest where
    rest: "normal_form s = normalize_prefix lims p @ rest"
    by (auto simp: prefix_def)
  from n(1) obtain m where m: "walk_prefix (normalize_prefix lims p) (ctx_root ctx) = Some m"
      "walk_prefix rest m = Some n"
    unfolding rest walk_prefix_append by (auto split: option.splits)
  let ?entry = "\<lparr>suggestion_r = copy_trunc (MAX_SUGGESTION_LENGTH lims) s, score_r = score n,
          frequency_r = frequency n, last_used_r = last_used n, is_trending = False\<rparr>"
  have "?entry \<in> set (all_matches m lims)"
    using all_matches_here [OF n(2,3), of lims] all_matches_descend [OF m(2), of lims] by blast
  moreover have "take (nat mx) (all_matches m lims) = all_matches m lims"
    using room m(1) by (simp add: matches_under_def)
  moreover have "set (qs compare_suggestions xs) = set xs" for xs
    using qs by (metis qsort_spec_def mset_eq_setD)
  ultimately have "?entry \<in> set (get_autocomplete_suggestions qs lims ctx (Some p) True mx)"
    by (simp add: get_suggestions_eq m(1))
  then show ?thesis using n(4) by (intro bexI [of _ ?entry]) simp_all
qed


section \<open>The claims\<close>

subsection \<open>C5: the catalog never exceeds its capacity\<close>

text \<open>
  C5. The document count of the catalog stays at or below \<open>MAX_DOCUMENTS\<close> (100) under
  every sequence of \<^verbatim>\<open>add_document_to_search_engine\<close> and
  \<^verbatim>\<open>add_document_to_search_engine_virtual\<close> calls, and an add on a catalog that is at
  capacity returns the statics as they were: count, documents and everything else.
\<close>

theorem catalog_capacity_bound:
  "(g_document_count st \<le> MAX_DOCUMENTS \<longrightarrow>
      g_document_count (catalog_run lims ops st) \<le> MAX_DOCUMENTS) \<and>
   (g_document_count st \<ge> MAX_DOCUMENTS \<longrightarrow>
      add_document_to_search_engine lims e fname st = st \<and>
      add_document_to_search_engine_virtual doc st = st)"
  by (simp add: catalog_run_count_le add_document_to_search_engine_def
        add_document_to_search_engine_virtual_def split: option.splits)

text \<open>
  The bound and the no-op on the catalog that 100 adds of a commit message have filled,
  and a catalog below capacity that does grow.
\<close>

theorem catalog_capacity_bound_witness:
  "g_document_count (catalog_run demo_limits (replicate 100 (AddVirtualDocument zero_doc))
       (init_search_engine demo_limits search_engine_static)) = MAX_DOCUMENTS \<and>
   g_document_count (catalog_run demo_limits
       [AddDocument demo_env (Some ''/w/notes.txt''), AddVirtualDocument zero_doc]
       (catalog_run demo_limits (replicate 100 (AddVirtualDocument zero_doc))
         (init_search_engine demo_limits search_engine_static))) \<le> MAX_DOCUMENTS \<and>
   add_document_to_search_engine demo_limits demo_env (Some ''/w/notes.txt'')
       (catalog_run demo_limits (replicate 100 (AddVirtualDocument zero_doc))
         (init_search_engine demo_limits search_engine_static))
     = catalog_run demo_limits (replicate 100 (AddVirtualDocument zero_doc))
         (init_search_engine demo_limits search_engine_static) \<and>
   add_document_to_search_engine_virtual zero_doc
       (catalog_run demo_limits (replicate 100 (AddVirtualDocument zero_doc))
         (init_search_engine demo_limits search_engine_static))
     = catalog_run demo_limits (replicate 100 (AddVirtualDocument zero_doc))
         (init_search_engine demo_limits search_engine_static) \<and>
   g_document_count (catalog_run demo_limits
       [AddDocument demo_env (Some ''/w/notes.txt''), AddVirtualDocument zero_doc]
       (init_search_engine demo_limits search_engine_static)) = 2"
proof -
  let ?full = "catalog_run demo_limits (replicate 100 (AddVirtualDocument zero_doc))
       (init_search_engine demo_limits search_engine_static)"
  have a: "g_document_count ?full = 100"
    by code_simp
  have c: "g_document_count (catalog_run demo_limits
      [AddDocument demo_env (Some ''/w/notes.txt''), AddVirtualDocument zero_doc]
      (init_search_engine demo_limits search_engine_static)) = 2"
    by code_simp
  show ?thesis
    using catalog_capacity_bound [of ?full demo_limits
        "[AddDocument demo_env (Some ''/w/notes.txt''), AddVirtualDocument zero_doc]"
        demo_env "Some ''/w/notes.txt''" zero_doc] a c
    by (simp add: MAX_DOCUMENTS_def)
qed

subsection \<open>C1: the number of snapshots in a commit\<close>

text \<open>
  C1 says that a commit created by \<^verbatim>\<open>commit_staged\<close> or \<^verbatim>\<open>save_commit\<close> never holds more
  than \<open>MAX_FILES_PER_COMMIT\<close> (50) snapshots, the excess being dropped. Neither loop
  compares \<^verbatim>\<open>file_count\<close> with the bound: with 51 staged files, and with 51 readable
  entries in the working directory, the loop runs 51 times and its 51st pass writes
  \<^verbatim>\<open>files[50]\<close>, outside the array (\<open>out_of_bounds\<close>, which was not set before the
  call). Nothing is dropped: the loop has stored 51 snapshots and incremented
  \<^verbatim>\<open>file_count\<close> 51 times. In the compiled program the bytes of \<^verbatim>\<open>files[50]\<close> are those of
  the fields \<^verbatim>\<open>file_count\<close> and \<^verbatim>\<open>next\<close> and of the memory behind the commit, so the
  number left in \<^verbatim>\<open>file_count\<close> there is what the copied text puts into it; the 51 below
  is the number of slots the loop has written.
\<close>

theorem file_count_exceeds_cap:
  "\<not> out_of_bounds (snd (vcs_run demo_limits (replicate 51 (Stage demo_env (Some ''/todo.txt'')))
              (initial_state demo_limits))) \<and>
   out_of_bounds (snd (commit_staged demo_limits demo_env ''big''
      (snd (vcs_run demo_limits (replicate 51 (Stage demo_env (Some ''/todo.txt'')))
              (initial_state demo_limits))))) \<and>
   map file_count (head (repo (snd (commit_staged demo_limits demo_env ''big''
      (snd (vcs_run demo_limits (replicate 51 (Stage demo_env (Some ''/todo.txt'')))
              (initial_state demo_limits))))))) = [51] \<and>
   \<not> out_of_bounds (initial_state demo_limits) \<and>
   out_of_bounds (snd (save_commit demo_limits crowded_env ''big'' (initial_state demo_limits))) \<and>
   map file_count (head (repo (snd (save_commit demo_limits crowded_env ''big''
      (initial_state demo_limits))))) = [51] \<and>
   \<not> 51 \<le> MAX_FILES_PER_COMMIT"
proof -
  let ?s = "snd (vcs_run demo_limits (replicate 51 (Stage demo_env (Some ''/todo.txt'')))
              (initial_state demo_limits))"
  have ih: "index_head ?s = replicate 51 ''/todo.txt''"
    using stage_many [of "''/todo.txt''" demo_env demo_limits 51 "initial_state demo_limits"]
    by (simp add: MAX_FILENAME_def demo_env_def initial_state_def)
  have rp: "repo ?s = repo (initial_state demo_limits)"
    by (rule stage_many_frame)
  have m0: "\<not> out_of_bounds (initial_state demo_limits)"
    by (simp add: initial_state_def)
  have m1: "\<not> out_of_bounds ?s"
    unfolding stage_many_frame by (rule m0)
  have m2: "out_of_bounds (snd (commit_staged demo_limits demo_env ''big'' ?s))"
    by (rule commit_staged_overflows) (simp add: ih MAX_FILES_PER_COMMIT_def)
  have a: "map file_count (head (repo (snd (commit_staged demo_limits demo_env ''big'' ?s)))) = [51]"
    using commit_staged_file_counts [of ?s demo_limits demo_env "''big''"] ih rp
    by (simp add: INT_MAX_def initial_state_def)
  have len: "length (readdir_names crowded_env) = 51"
    by (simp add: crowded_env_def)
  have ok: "list_all (\<lambda>n. take 1 n \<noteq> ''.'' \<and>
        fs crowded_env (copy_trunc 512 (WORKING_DIR @ ''/'' @ n)) \<noteq> None) (readdir_names crowded_env)"
    by (simp add: crowded_env_def list_all_iff)
  have m3: "out_of_bounds (snd (save_commit demo_limits crowded_env ''big'' (initial_state demo_limits)))"
    by (rule save_commit_overflows [OF _ ok]) (simp add: len MAX_FILES_PER_COMMIT_def)
  have b: "map file_count (head (repo (snd (save_commit demo_limits crowded_env ''big''
      (initial_state demo_limits))))) = [51]"
    using save_commit_file_counts [OF _ ok, of demo_limits "''big''" "initial_state demo_limits"] len
    by (simp add: INT_MAX_def initial_state_def)
  have c: "\<not> 51 \<le> MAX_FILES_PER_COMMIT"
    by (simp add: MAX_FILES_PER_COMMIT_def)
  from m1 m2 a m0 m3 b c show ?thesis by blast
qed

subsection \<open>C6: commit ids increase\<close>

text \<open>
  C6. Over any sequence of stage, commit, save and delete commands that keeps the counter
  within the range of a C \<^verbatim>\<open>int\<close>, the ids of the commits created are strictly
  increasing in creation order and all above the counter at the start; \<^verbatim>\<open>delete_commit\<close>
  leaves the counter as it is, so an id that was assigned before a delete (it is at most
  the counter) is never given to a commit created later.
\<close>

theorem commit_ids_strictly_increase:
  "(commit_count (repo s) + int (length ops) \<le> INT_MAX \<longrightarrow>
      sorted_wrt (<) (created_ids (fst (vcs_run lims ops s))) \<and>
      list_all (\<lambda>i. commit_count (repo s) < i) (created_ids (fst (vcs_run lims ops s)))) \<and>
   commit_count (repo (snd (delete_commit cid s))) = commit_count (repo s) \<and>
   (cid \<le> commit_count (repo s) \<and> commit_count (repo s) + int (length ops) \<le> INT_MAX \<longrightarrow>
      cid \<notin> set (created_ids (fst (vcs_run lims ops (snd (delete_commit cid s))))))"
proof -
  have a: "commit_count (repo s) + int (length ops) \<le> INT_MAX \<Longrightarrow>
      sorted_wrt (<) (created_ids (fst (vcs_run lims ops s))) \<and>
      list_all (\<lambda>i. commit_count (repo s) < i) (created_ids (fst (vcs_run lims ops s)))" for s
    using vcs_run_ids [of s ops lims] by (simp add: list_all_iff)
  have b: "commit_count (repo (snd (delete_commit cid s))) = commit_count (repo s)"
    by (simp add: delete_commit_frame)
  have c: "cid \<notin> set (created_ids (fst (vcs_run lims ops (snd (delete_commit cid s)))))"
    if "cid \<le> commit_count (repo s)" "commit_count (repo s) + int (length ops) \<le> INT_MAX"
  proof -
    have "list_all (\<lambda>i. commit_count (repo s) < i)
        (created_ids (fst (vcs_run lims ops (snd (delete_commit cid s)))))"
      using a [of "snd (delete_commit cid s)"] that b by simp
    with that show ?thesis by (auto simp: list_all_iff)
  qed
  from a b c show ?thesis by blast
qed

theorem commit_ids_strictly_increase_witness:
  "commit_count (repo (initial_state demo_limits)) + int (length demo_ops) \<le> INT_MAX \<and>
   sorted_wrt (<) (created_ids (fst (vcs_run demo_limits demo_ops (initial_state demo_limits)))) \<and>
   list_all (\<lambda>i. 0 < i) (created_ids (fst (vcs_run demo_limits demo_ops (initial_state demo_limits)))) \<and>
   (1::int) \<le> commit_count (repo two_commits) \<and>
   commit_count (repo two_commits) + int (length demo_ops) \<le> INT_MAX \<and>
   commit_count (repo (snd (delete_commit 1 two_commits))) = 2 \<and>
   1 \<notin> set (created_ids (fst (vcs_run demo_limits demo_ops (snd (delete_commit 1 two_commits)))))"
proof -
  have h0: "commit_count (repo (initial_state demo_limits)) = 0"
    by (simp add: initial_state_def)
  have h2: "commit_count (repo two_commits) = 2"
    by (simp add: two_commits_def)
  have len: "length demo_ops = 7"
    by (simp add: demo_ops_def)
  show ?thesis
    using commit_ids_strictly_increase [of "initial_state demo_limits" demo_ops demo_limits 1]
      commit_ids_strictly_increase [of two_commits demo_ops demo_limits 1]
      h0 h2 len
    by (simp add: INT_MAX_def)
qed

subsection \<open>C7: committing with nothing staged\<close>



subsection \<open>C8: what a delete changes\<close>

text \<open>
  C8. In a repository whose commit ids are distinct (\<open>vcs_run_repo_inv\<close>: every repository
  the commands build, as long as the counter does not wrap), \<^verbatim>\<open>delete_commit\<close> of an id
  in the list leaves the state as it was except that the commit of that id is gone from
  the list: the log shows the other commits as before and not this one, viewing the id
  reports "not found", viewing any other id prints what it printed before, and the id
  counter, the staging list, the autocomplete trie, the search catalog and the word index
  are untouched, so that every suggestion and every search answers as before the delete.
\<close>

theorem delete_commit_unlinks_only_that_commit:
  assumes "distinct (map commit_id (head (repo s)))"
    and "cid \<in> set (map commit_id (head (repo s)))"
  shows "delete_commit cid s =
           ([Commit_deleted cid],
            s\<lparr>repo := (repo s)\<lparr>head := filter (\<lambda>c. commit_id c \<noteq> cid) (head (repo s))\<rparr>\<rparr>) \<and>
         logged_ids (view_log (snd (delete_commit cid s)))
           = filter (\<lambda>i. i \<noteq> cid) (logged_ids (view_log s)) \<and>
         cid \<notin> set (logged_ids (view_log (snd (delete_commit cid s)))) \<and>
         view_commit cid (snd (delete_commit cid s)) = [View_not_found cid] \<and>
         (\<forall>cid'. cid' \<noteq> cid \<longrightarrow>
            view_commit cid' (snd (delete_commit cid s)) = view_commit cid' s) \<and>
         commit_count (repo (snd (delete_commit cid s))) = commit_count (repo s) \<and>
         index_head (snd (delete_commit cid s)) = index_head s \<and>
         g_autocomplete_ctx (snd (delete_commit cid s)) = g_autocomplete_ctx s \<and>
         search (snd (delete_commit cid s)) = search s \<and>
         trie_index (snd (delete_commit cid s)) = trie_index s \<and>
         get_autocomplete_suggestions qs lims (g_autocomplete_ctx (snd (delete_commit cid s))) q b mx
           = get_autocomplete_suggestions qs lims (g_autocomplete_ctx s) q b mx \<and>
         search_and_rank qs' lims ms q' b' mx' (search (snd (delete_commit cid s)))
           = search_and_rank qs' lims ms q' b' mx' (search s)"
proof -
  let ?rest = "filter (\<lambda>c. commit_id c \<noteq> cid) (head (repo s))"
  have del: "delete_commit cid s = ([Commit_deleted cid], s\<lparr>repo := (repo s)\<lparr>head := ?rest\<rparr>\<rparr>)"
    using unlink_commit_distinct [OF assms] by (simp add: delete_commit_def)
  have ids: "logged_ids (map (\<lambda>c. Log_line (commit_id c) (message c)) cs) = map commit_id cs"
    for cs :: "Commit list"
    by (induction cs) simp_all
  have log: "logged_ids (view_log s') = map commit_id (head (repo s'))" for s'
    by (simp add: view_log_def ids)
  have l1: "logged_ids (view_log (snd (delete_commit cid s)))
      = filter (\<lambda>i. i \<noteq> cid) (logged_ids (view_log s))"
    unfolding log del by (simp add: filter_map comp_def)
  have l2: "cid \<notin> set (logged_ids (view_log (snd (delete_commit cid s))))"
    unfolding l1 by simp
  have v1: "view_commit cid (snd (delete_commit cid s)) = [View_not_found cid]"
    unfolding del by (simp add: view_commit_def)
  have v2: "\<forall>cid'. cid' \<noteq> cid \<longrightarrow>
      view_commit cid' (snd (delete_commit cid s)) = view_commit cid' s"
    unfolding del by (simp add: view_commit_def find_commit_filter_other)
  show ?thesis
    using del l1 l2 v1 v2 by (simp add: delete_commit_frame)
qed

theorem delete_commit_unlinks_only_that_commit_witness:
  "distinct (map commit_id (head (repo two_commits))) \<and>
   (1::int) \<in> set (map commit_id (head (repo two_commits))) \<and>
   fst (delete_commit 1 two_commits) = [Commit_deleted 1] \<and>
   logged_ids (view_log two_commits) = [2, 1] \<and>
   logged_ids (view_log (snd (delete_commit 1 two_commits))) = [2] \<and>
   view_commit 1 (snd (delete_commit 1 two_commits)) = [View_not_found 1] \<and>
   view_commit 2 (snd (delete_commit 1 two_commits)) = view_commit 2 two_commits \<and>
   commit_count (repo (snd (delete_commit 1 two_commits))) = 2 \<and>
   g_autocomplete_ctx (snd (delete_commit 1 two_commits)) = g_autocomplete_ctx two_commits \<and>
   search (snd (delete_commit 1 two_commits)) = search two_commits"
proof -
  have d: "distinct (map commit_id (head (repo two_commits)))"
    by (simp add: two_commits_def)
  have m: "(1::int) \<in> set (map commit_id (head (repo two_commits)))"
    by (simp add: two_commits_def)
  have l: "logged_ids (view_log two_commits) = [2, 1]"
    by (simp add: two_commits_def view_log_def)
  have c: "commit_count (repo two_commits) = 2"
    by (simp add: two_commits_def)
  note t = delete_commit_unlinks_only_that_commit [OF d m]
  have f1: "fst (delete_commit 1 two_commits) = [Commit_deleted 1]"
    using t [THEN conjunct1] by simp
  have f2: "logged_ids (view_log (snd (delete_commit 1 two_commits))) = [2]"
    using t [THEN conjunct2, THEN conjunct1] l by simp
  have f3: "view_commit 1 (snd (delete_commit 1 two_commits)) = [View_not_found 1]"
    using t by blast
  have f4: "view_commit 2 (snd (delete_commit 1 two_commits)) = view_commit 2 two_commits"
  proof -
    have "\<forall>cid'. cid' \<noteq> 1 \<longrightarrow>
        view_commit cid' (snd (delete_commit 1 two_commits)) = view_commit cid' two_commits"
      using t by blast
    then show ?thesis by simp
  qed
  have f5: "commit_count (repo (snd (delete_commit 1 two_commits))) = 2"
    using t c by simp
  have f6: "g_autocomplete_ctx (snd (delete_commit 1 two_commits)) = g_autocomplete_ctx two_commits"
    "search (snd (delete_commit 1 two_commits)) = search two_commits"
    using t by blast+
  show ?thesis
    using d m l f1 f2 f3 f4 f5 f6 by blast
qed

subsection \<open>C2: the relevance a query assigns\<close>

text \<open>
  C2. For a query on an initialized engine with a non-empty catalog whose titles and
  bodies fit the working copies, the array \<^verbatim>\<open>local\<close> that \<^verbatim>\<open>search_and_rank\<close> sorts holds
  every catalog document, in catalog order, with the relevance the specification words:
  the raw score (the sum over the tokens of three times the number of non-overlapping
  occurrences in the lowercase title plus the number in the lowercase body, times
  \<open>1 + matched / token_count\<close> exactly when there is more than one token) divided by the
  largest raw score of the query floored at 1/1000, a value between 0 and 1. The entries
  returned are the first \<open>min n max_results\<close> of that array sorted; when the caller's
  array takes them all, every document is returned with its relevance, zero or not.
\<close>

theorem query_assigns_spec_relevance:
  assumes "g_search_engine_initialized st"
    and "0 < g_document_count st"
    and "g_document_count st \<le> int (length (g_documents st))"
    and "0 < mx"
    and "list_all (fits_working_copies lims) (take (nat (g_document_count st)) (g_documents st))"
  shows "results (search_and_rank qs lims ms (Some q) True mx st)
           = take (nat (min (g_document_count st) mx))
               (qs cmp_results_descending
                  (rank_documents lims (query_tokens lims q)
                     (take (nat (g_document_count st)) (g_documents st)))) \<and>
         length (rank_documents lims (query_tokens lims q)
                   (take (nat (g_document_count st)) (g_documents st)))
           = nat (g_document_count st) \<and>
         (\<forall>i < nat (g_document_count st).
            rank_documents lims (query_tokens lims q)
                (take (nat (g_document_count st)) (g_documents st)) ! i
              = (g_documents st ! i)\<lparr>relevance_score :=
                   spec_relevance (query_tokens lims q)
                     (take (nat (g_document_count st)) (g_documents st)) (g_documents st ! i)\<rparr> \<and>
            0 \<le> spec_relevance (query_tokens lims q)
                     (take (nat (g_document_count st)) (g_documents st)) (g_documents st ! i) \<and>
            spec_relevance (query_tokens lims q)
                     (take (nat (g_document_count st)) (g_documents st)) (g_documents st ! i) \<le> 1) \<and>
         (qsort_spec cmp_results_descending qs \<and> g_document_count st \<le> mx \<longrightarrow>
            mset (results (search_and_rank qs lims ms (Some q) True mx st))
              = mset (rank_documents lims (query_tokens lims q)
                        (take (nat (g_document_count st)) (g_documents st))))"
proof -
  let ?docs = "take (nat (g_document_count st)) (g_documents st)"
  let ?tokens = "query_tokens lims q"
  let ?ranked = "rank_documents lims ?tokens ?docs"
  have nle: "nat (g_document_count st) \<le> length (g_documents st)"
    using assms(3) by linarith
  then have len_docs: "length ?docs = nat (g_document_count st)"
    by simp
  have len: "length ?ranked = nat (g_document_count st)"
    unfolding rank_documents_length by (rule len_docs)
  have n_out: "(if int (length ?ranked) < mx then int (length ?ranked) else mx)
      = min (g_document_count st) mx"
    using assms(2) by (simp add: len min_def)
  have res: "results (search_and_rank qs lims ms (Some q) True mx st)
      = take (nat (min (g_document_count st) mx)) (qs cmp_results_descending ?ranked)"
    using search_and_rank_ranked [of st mx qs lims ms q] assms(1,2,4) n_out
    by (simp add: Let_def)
  have each: "?ranked ! i = (g_documents st ! i)\<lparr>relevance_score :=
        spec_relevance ?tokens ?docs (g_documents st ! i)\<rparr> \<and>
      0 \<le> spec_relevance ?tokens ?docs (g_documents st ! i) \<and>
      spec_relevance ?tokens ?docs (g_documents st ! i) \<le> 1"
    if "i < nat (g_document_count st)" for i
  proof -
    have i: "i < length ?docs" unfolding len_docs by (rule that)
    have nth: "?docs ! i = g_documents st ! i" using that by simp
    from rank_documents_spec [OF i assms(5), of ?tokens] show ?thesis
      by (simp add: nth)
  qed
  have all: "mset (results (search_and_rank qs lims ms (Some q) True mx st)) = mset ?ranked"
    if "qsort_spec cmp_results_descending qs" "g_document_count st \<le> mx"
  proof -
    have m: "mset (qs cmp_results_descending ?ranked) = mset ?ranked"
      using that(1) by (simp add: qsort_spec_def)
    then have "length (qs cmp_results_descending ?ranked) = length ?ranked"
      by (rule mset_eq_length)
    then show ?thesis
      using that(2) m by (simp add: res len min_def)
  qed
  from res len each all show ?thesis by blast
qed

text \<open>
  The catalog of the two files, "/w/notes.txt" with the body "alpha beta alpha" and
  "/todo.txt" with the body "beta beta". The query "beta" finds one occurrence in the
  first body and two in the second: the relevances are 1/2 and 1, and the second file is
  returned first. The query "alpha" (scenario 3 of the specification) gives the first
  file relevance 1 and the second relevance 0, and returns both.
\<close>

theorem query_assigns_spec_relevance_witness:
  "g_search_engine_initialized two_files \<and> 0 < g_document_count two_files \<and>
   g_document_count two_files \<le> int (length (g_documents two_files)) \<and> (0::int) < 10 \<and>
   list_all (fits_working_copies demo_limits)
     (take (nat (g_document_count two_files)) (g_documents two_files)) \<and>
   qsort_spec cmp_results_descending stable_qsort \<and> g_document_count two_files \<le> 10 \<and>
   query_tokens demo_limits ''beta'' = [''beta''] \<and>
   map relevance_score (rank_documents demo_limits (query_tokens demo_limits ''beta'')
      (take (nat (g_document_count two_files)) (g_documents two_files))) = [1 / 2, 1] \<and>
   spec_relevance (query_tokens demo_limits ''beta'')
      (take (nat (g_document_count two_files)) (g_documents two_files))
      (g_documents two_files ! 0) = 1 / 2 \<and>
   spec_relevance (query_tokens demo_limits ''beta'')
      (take (nat (g_document_count two_files)) (g_documents two_files))
      (g_documents two_files ! 1) = 1 \<and>
   map title (results (search_and_rank stable_qsort demo_limits 1 (Some ''beta'') True 10 two_files))
     = [''/todo.txt'', ''/w/notes.txt''] \<and>
   mset (results (search_and_rank stable_qsort demo_limits 1 (Some ''beta'') True 10 two_files))
     = mset (rank_documents demo_limits (query_tokens demo_limits ''beta'')
               (take (nat (g_document_count two_files)) (g_documents two_files))) \<and>
   query_tokens demo_limits ''alpha'' = [''alpha''] \<and>
   spec_relevance (query_tokens demo_limits ''alpha'')
      (take (nat (g_document_count two_files)) (g_documents two_files))
      (g_documents two_files ! 0) = 1 \<and>
   spec_relevance (query_tokens demo_limits ''alpha'')
      (take (nat (g_document_count two_files)) (g_documents two_files))
      (g_documents two_files ! 1) = 0 \<and>
   map title (results (search_and_rank stable_qsort demo_limits 1 (Some ''alpha'') True 10 two_files))
     = [''/w/notes.txt'', ''/todo.txt'']"
proof -
  let ?docs = "take (nat (g_document_count two_files)) (g_documents two_files)"
  have h1: "g_search_engine_initialized two_files" by code_simp
  have h2: "g_document_count two_files = 2" by code_simp
  have h3: "length (g_documents two_files) = 100" by code_simp
  have fit: "list_all (fits_working_copies demo_limits) ?docs" by code_simp
  have tb: "query_tokens demo_limits ''beta'' = [''beta'']" by code_simp
  have ta: "query_tokens demo_limits ''alpha'' = [''alpha'']" by code_simp
  have rb: "map relevance_score (rank_documents demo_limits (query_tokens demo_limits ''beta'') ?docs)
      = [1 / 2, 1]"
    by code_simp
  have ra: "map relevance_score (rank_documents demo_limits (query_tokens demo_limits ''alpha'') ?docs)
      = [1, 0]"
    by code_simp
  have ob: "map title (results (search_and_rank stable_qsort demo_limits 1 (Some ''beta'') True 10
      two_files)) = [''/todo.txt'', ''/w/notes.txt'']"
    by code_simp
  have oa: "map title (results (search_and_rank stable_qsort demo_limits 1 (Some ''alpha'') True 10
      two_files)) = [''/w/notes.txt'', ''/todo.txt'']"
    by code_simp
  have a: "0 < g_document_count two_files"
    and b: "g_document_count two_files \<le> int (length (g_documents two_files))"
    and c: "g_document_count two_files \<le> 10"
    using h2 h3 by simp_all
  have d: "(0::int) < 10" by simp
  note t_beta = query_assigns_spec_relevance
      [OF h1 a b d fit, of stable_qsort 1 "''beta''"]
  note t_alpha = query_assigns_spec_relevance
      [OF h1 a b d fit, of stable_qsort 1 "''alpha''"]
  have len2: "length (rank_documents demo_limits tokens ?docs) = 2" for tokens
    unfolding rank_documents_length using h2 h3 by simp
  have rel: "relevance_score (rank_documents demo_limits tokens ?docs ! i)
      = map relevance_score (rank_documents demo_limits tokens ?docs) ! i" if "i < 2" for i tokens
    using that len2 [of tokens] by simp
  have eb: "rank_documents demo_limits (query_tokens demo_limits ''beta'') ?docs ! i
      = (g_documents two_files ! i)\<lparr>relevance_score :=
           spec_relevance (query_tokens demo_limits ''beta'') ?docs (g_documents two_files ! i)\<rparr>"
    if "i < 2" for i
    using t_beta that h2 by simp
  have ea: "rank_documents demo_limits (query_tokens demo_limits ''alpha'') ?docs ! i
      = (g_documents two_files ! i)\<lparr>relevance_score :=
           spec_relevance (query_tokens demo_limits ''alpha'') ?docs (g_documents two_files ! i)\<rparr>"
    if "i < 2" for i
    using t_alpha that h2 by simp
  have sb0: "spec_relevance (query_tokens demo_limits ''beta'') ?docs (g_documents two_files ! 0) = 1 / 2"
    using arg_cong [OF eb [of 0], of relevance_score] rel [of 0 "query_tokens demo_limits ''beta''"] rb
    by simp
  have sb1: "spec_relevance (query_tokens demo_limits ''beta'') ?docs (g_documents two_files ! 1) = 1"
    using arg_cong [OF eb [of 1], of relevance_score] rel [of 1 "query_tokens demo_limits ''beta''"] rb
    by simp
  have sa0: "spec_relevance (query_tokens demo_limits ''alpha'') ?docs (g_documents two_files ! 0) = 1"
    using arg_cong [OF ea [of 0], of relevance_score] rel [of 0 "query_tokens demo_limits ''alpha''"] ra
    by simp
  have sa1: "spec_relevance (query_tokens demo_limits ''alpha'') ?docs (g_documents two_files ! 1) = 0"
    using arg_cong [OF ea [of 1], of relevance_score] rel [of 1 "query_tokens demo_limits ''alpha''"] ra
    by simp
  have m: "mset (results (search_and_rank stable_qsort demo_limits 1 (Some ''beta'') True 10 two_files))
     = mset (rank_documents demo_limits (query_tokens demo_limits ''beta'') ?docs)"
    using t_beta qsort_spec_results(1) c by blast
  from h1 a b d fit qsort_spec_results(1) c tb rb sb0 sb1 ob m ta sa0 sa1 oa
  show ?thesis by blast
qed

subsection \<open>C4: the order of the results\<close>



subsection \<open>C9: the statistics of a query\<close>

text \<open>
  C9 says that every query on an initialized engine records one statistics sample and
  prints one log entry, also when it returns no result. The code returns before the
  statistics when the catalog is empty (and when \<^verbatim>\<open>max_results\<close> is not positive): on the
  freshly initialized engine a query returns 0, leaves the query count at 0 and prints the
  debug line only.
\<close>

theorem empty_catalog_query_counterexample:
  "g_search_engine_initialized (init_search_engine demo_limits search_engine_static) \<and>
   out_count (search_and_rank stable_qsort demo_limits 1 (Some ''alpha'') True 10
      (init_search_engine demo_limits search_engine_static)) = 0 \<and>
   printed (search_and_rank stable_qsort demo_limits 1 (Some ''alpha'') True 10
      (init_search_engine demo_limits search_engine_static)) = [Debug_no_documents] \<and>
   g_total_queries (engine (search_and_rank stable_qsort demo_limits 1 (Some ''alpha'') True 10
      (init_search_engine demo_limits search_engine_static)))
     = g_total_queries (init_search_engine demo_limits search_engine_static)"
  by (simp add: search_and_rank_def init_search_engine_def)

text \<open>
  C9, amended. On an initialized engine, a query with a query string, a result array, a
  positive \<^verbatim>\<open>max_results\<close> and a non-empty catalog adds one to the query count (below
  \<open>INT_MAX\<close>), replaces the mean response time by the running mean over the new count,
  changes nothing else, prints exactly one log entry, and returns at least one result.
  A query on an empty catalog or with a non-positive \<^verbatim>\<open>max_results\<close> returns no result,
  leaves the statistics as they were and prints no log entry.
\<close>

theorem query_statistics:
  assumes "g_search_engine_initialized st"
  shows "(0 < mx \<and> 0 < g_document_count st \<and> g_document_count st \<le> int (length (g_documents st)) \<and>
          g_total_queries st < INT_MAX \<longrightarrow>
            engine (search_and_rank qs lims ms (Some q) True mx st)
              = st\<lparr>g_total_queries := g_total_queries st + 1,
                   g_avg_response_time :=
                     (g_avg_response_time st * real_of_int (g_total_queries st) + ms)
                       / real_of_int (g_total_queries st + 1)\<rparr> \<and>
            printed (search_and_rank qs lims ms (Some q) True mx st)
              = [Search_log q (out_count (search_and_rank qs lims ms (Some q) True mx st)) ms] \<and>
            0 < out_count (search_and_rank qs lims ms (Some q) True mx st)) \<and>
         (mx \<le> 0 \<or> g_document_count st = 0 \<longrightarrow>
            out_count (search_and_rank qs lims ms (Some q) True mx st) = 0 \<and>
            results (search_and_rank qs lims ms (Some q) True mx st) = [] \<and>
            engine (search_and_rank qs lims ms (Some q) True mx st) = st \<and>
            list_all (\<lambda>line. line = Debug_no_documents)
              (printed (search_and_rank qs lims ms (Some q) True mx st)))"
proof -
  have a: "engine (search_and_rank qs lims ms (Some q) True mx st)
              = st\<lparr>g_total_queries := g_total_queries st + 1,
                   g_avg_response_time :=
                     (g_avg_response_time st * real_of_int (g_total_queries st) + ms)
                       / real_of_int (g_total_queries st + 1)\<rparr> \<and>
            printed (search_and_rank qs lims ms (Some q) True mx st)
              = [Search_log q (out_count (search_and_rank qs lims ms (Some q) True mx st)) ms] \<and>
            0 < out_count (search_and_rank qs lims ms (Some q) True mx st)"
    if h: "0 < mx" "0 < g_document_count st"
      "g_document_count st \<le> int (length (g_documents st))" "g_total_queries st < INT_MAX"
  proof -
    have ne: "g_document_count st \<noteq> 0" using h(2) by simp
    have "0 < nat (g_document_count st)" "nat (g_document_count st) \<le> length (g_documents st)"
      using h(2,3) by linarith+
    then have len: "0 < length (rank_documents lims (query_tokens lims q)
        (take (nat (g_document_count st)) (g_documents st)))"
      unfolding rank_documents_length by simp
    show ?thesis
      using search_and_rank_ranked [OF assms ne h(1), of qs lims ms q] len h(1,4)
      by (simp add: Let_def int_incr_def)
  qed
  have b: "out_count (search_and_rank qs lims ms (Some q) True mx st) = 0 \<and>
            results (search_and_rank qs lims ms (Some q) True mx st) = [] \<and>
            engine (search_and_rank qs lims ms (Some q) True mx st) = st \<and>
            list_all (\<lambda>line. line = Debug_no_documents)
              (printed (search_and_rank qs lims ms (Some q) True mx st))"
    if "mx \<le> 0 \<or> g_document_count st = 0"
    using that assms by (auto simp: search_and_rank_def)
  from a b show ?thesis by blast
qed

theorem query_statistics_witness:
  "g_search_engine_initialized two_files \<and> (0::int) < 10 \<and> 0 < g_document_count two_files \<and>
   g_document_count two_files \<le> int (length (g_documents two_files)) \<and>
   g_total_queries two_files < INT_MAX \<and>
   g_total_queries (engine (search_and_rank stable_qsort demo_limits 4 (Some ''alpha'') True 10
      two_files)) = 1 \<and>
   g_avg_response_time (engine (search_and_rank stable_qsort demo_limits 4 (Some ''alpha'') True 10
      two_files)) = 4 \<and>
   printed (search_and_rank stable_qsort demo_limits 4 (Some ''alpha'') True 10 two_files)
     = [Search_log ''alpha'' 2 4] \<and>
   g_search_engine_initialized (init_search_engine demo_limits search_engine_static) \<and>
   g_document_count (init_search_engine demo_limits search_engine_static) = 0 \<and>
   engine (search_and_rank stable_qsort demo_limits 4 (Some ''alpha'') True 10
      (init_search_engine demo_limits search_engine_static))
     = init_search_engine demo_limits search_engine_static"
proof -
  have h1: "g_search_engine_initialized two_files" by code_simp
  have h2: "g_document_count two_files = 2" by code_simp
  have h3: "length (g_documents two_files) = 100" by code_simp
  have h4: "g_total_queries two_files = 0" by code_simp
  have h5: "g_avg_response_time two_files = 0" by code_simp
  have h6: "out_count (search_and_rank stable_qsort demo_limits 4 (Some ''alpha'') True 10 two_files) = 2"
    by code_simp
  have i1: "g_search_engine_initialized (init_search_engine demo_limits search_engine_static)"
    and i2: "g_document_count (init_search_engine demo_limits search_engine_static) = 0"
    by (simp_all add: init_search_engine_def)
  note t = query_statistics [OF h1, of 10 stable_qsort demo_limits 4 "''alpha''"]
  note u = query_statistics [OF i1, of 10 stable_qsort demo_limits 4 "''alpha''"]
  have e: "engine (search_and_rank stable_qsort demo_limits 4 (Some ''alpha'') True 10 two_files)
      = two_files\<lparr>g_total_queries := g_total_queries two_files + 1,
           g_avg_response_time :=
             (g_avg_response_time two_files * real_of_int (g_total_queries two_files) + 4)
               / real_of_int (g_total_queries two_files + 1)\<rparr>"
    and p: "printed (search_and_rank stable_qsort demo_limits 4 (Some ''alpha'') True 10 two_files)
      = [Search_log ''alpha''
           (out_count (search_and_rank stable_qsort demo_limits 4 (Some ''alpha'') True 10 two_files)) 4]"
    using t h2 h3 h4 by (simp_all add: INT_MAX_def)
  have f: "engine (search_and_rank stable_qsort demo_limits 4 (Some ''alpha'') True 10
      (init_search_engine demo_limits search_engine_static))
     = init_search_engine demo_limits search_engine_static"
    using u i2 by simp
  show ?thesis
    using h1 h2 h3 h4 h5 h6 i1 i2 f by (simp add: e p INT_MAX_def)
qed

subsection \<open>C10: the empty query\<close>

text \<open>
  C10. For the empty query \<^verbatim>\<open>get_autocomplete_suggestions\<close> walks no edge: it collects
  from the root and returns, ordered by descending score, the first \<open>max\<close> entries of the
  traversal of the whole tree, as many as there are when there are fewer. It is no error
  and, when the tree holds a suggestion and \<open>max\<close> is positive, not empty; with \<open>max\<close>
  at least the number of entries in the tree, every suggestion the tree holds is returned.
\<close>

theorem empty_query_collects_from_root:
  assumes "qsort_spec compare_suggestions qs"
  shows "walk_prefix (normalize_prefix lims []) (ctx_root ctx) = Some (ctx_root ctx) \<and>
         mset (get_autocomplete_suggestions qs lims ctx (Some []) True mx)
           = mset (take (nat mx) (all_matches (ctx_root ctx) lims)) \<and>
         length (get_autocomplete_suggestions qs lims ctx (Some []) True mx)
           = min (nat mx) (length (all_matches (ctx_root ctx) lims)) \<and>
         sorted_wrt (\<lambda>a b. score_r b \<le> score_r a)
           (get_autocomplete_suggestions qs lims ctx (Some []) True mx) \<and>
         (holds_suggestion (ctx_root ctx) s sc \<and>
          int (length (all_matches (ctx_root ctx) lims)) \<le> mx \<longrightarrow>
            (\<exists>r \<in> set (get_autocomplete_suggestions qs lims ctx (Some []) True mx).
               suggestion_r r = copy_trunc (MAX_SUGGESTION_LENGTH lims) s \<and> score_r r = sc))"
proof -
  let ?all = "all_matches (ctx_root ctx) lims"
  have w: "walk_prefix (normalize_prefix lims []) (ctx_root ctx) = Some (ctx_root ctx)"
    by (simp add: normalize_prefix_def copy_trunc_def)
  have g: "get_autocomplete_suggestions qs lims ctx (Some []) True mx
      = qs compare_suggestions (take (nat mx) ?all)"
    by (simp add: get_suggestions_eq w)
  have m: "mset (get_autocomplete_suggestions qs lims ctx (Some []) True mx)
      = mset (take (nat mx) ?all)"
    using assms by (simp add: g qsort_spec_def)
  have l: "length (get_autocomplete_suggestions qs lims ctx (Some []) True mx)
      = min (nat mx) (length ?all)"
    using mset_eq_length [OF m] by (simp add: min.commute)
  have s: "sorted_wrt (\<lambda>a b. score_r b \<le> score_r a)
      (get_autocomplete_suggestions qs lims ctx (Some []) True mx)"
    using assms by (simp add: g qsort_spec_def compare_suggestions_le)
  have c: "\<exists>r \<in> set (get_autocomplete_suggestions qs lims ctx (Some []) True mx).
      suggestion_r r = copy_trunc (MAX_SUGGESTION_LENGTH lims) s \<and> score_r r = sc"
    if "holds_suggestion (ctx_root ctx) s sc" "int (length ?all) \<le> mx"
  proof (rule suggest_contains [OF assms that(1)])
    show "prefix [] (normal_form s)" by simp
    show "int (length (matches_under lims ctx [])) \<le> mx"
      using that(2) by (simp add: matches_under_def w)
  qed
  from w m l s c show ?thesis by blast
qed

theorem empty_query_collects_from_root_witness:
  "qsort_spec compare_suggestions stable_qsort \<and>
   holds_suggestion (ctx_root two_suggestions) ''cb'' (9 / 10) \<and>
   int (length (all_matches (ctx_root two_suggestions) demo_limits)) \<le> 5 \<and>
   map suggestion_r (all_matches (ctx_root two_suggestions) demo_limits) = [''ca'', ''cb''] \<and>
   map suggestion_r (get_autocomplete_suggestions stable_qsort demo_limits two_suggestions
      (Some []) True 5) = [''cb'', ''ca''] \<and>
   map suggestion_r (get_autocomplete_suggestions stable_qsort demo_limits two_suggestions
      (Some []) True 1) = [''ca''] \<and>
   length (get_autocomplete_suggestions stable_qsort demo_limits two_suggestions (Some []) True 5)
     = min (nat 5) (length (all_matches (ctx_root two_suggestions) demo_limits)) \<and>
   (\<exists>r \<in> set (get_autocomplete_suggestions stable_qsort demo_limits two_suggestions (Some []) True 5).
      suggestion_r r = copy_trunc (MAX_SUGGESTION_LENGTH demo_limits) ''cb'' \<and> score_r r = 9 / 10)"
proof -
  have h: "holds_suggestion (ctx_root two_suggestions) ''cb'' (9 / 10)"
    by code_simp
  have a: "map suggestion_r (all_matches (ctx_root two_suggestions) demo_limits) = [''ca'', ''cb'']"
    by code_simp
  have b: "map suggestion_r (get_autocomplete_suggestions stable_qsort demo_limits two_suggestions
      (Some []) True 5) = [''cb'', ''ca'']"
    by code_simp
  have c: "map suggestion_r (get_autocomplete_suggestions stable_qsort demo_limits two_suggestions
      (Some []) True 1) = [''ca'']"
    by code_simp
  have n: "length (all_matches (ctx_root two_suggestions) demo_limits) = 2"
    using a by (metis length_map length_Cons list.size(3) numeral_2_eq_2)
  note t = empty_query_collects_from_root [OF qsort_spec_suggestions(1),
      of demo_limits two_suggestions 5 "''cb''" "9 / 10"]
  have l: "length (get_autocomplete_suggestions stable_qsort demo_limits two_suggestions
      (Some []) True 5) = min (nat 5) (length (all_matches (ctx_root two_suggestions) demo_limits))"
    using t by blast
  have e: "\<exists>r \<in> set (get_autocomplete_suggestions stable_qsort demo_limits two_suggestions
        (Some []) True 5).
      suggestion_r r = copy_trunc (MAX_SUGGESTION_LENGTH demo_limits) ''cb'' \<and> score_r r = 9 / 10"
    using t h n by simp
  show ?thesis
    using qsort_spec_suggestions(1) h n a b c l e by simp
qed

subsection \<open>C3: prefix containment\<close>

text \<open>
  C3 says that a suggestion is returned for every non-empty prefix of its key as soon as
  \<open>max\<close> is at least the number of competing matches with an equal or higher score. The
  code fills the caller's array in traversal order and stops at \<open>max\<close> entries, before
  it sorts by score: with "ca" (score 0.1) and "cb" (score 0.9) in the tree, the query "c"
  with \<open>max = 1\<close> returns "ca" alone, although no match under "c" competes with "cb" at
  its score or above.
\<close>

theorem prefix_containment_counterexample:
  "holds_suggestion (ctx_root two_suggestions) ''cb'' (9 / 10) \<and>
   normal_form ''cb'' = ''cb'' \<and> prefix ''c'' (normal_form ''cb'') \<and>
   map suggestion_r (matches_under demo_limits two_suggestions ''c'') = [''ca'', ''cb''] \<and>
   map score_r (matches_under demo_limits two_suggestions ''c'') = [1 / 10, 9 / 10] \<and>
   int (length (filter (\<lambda>r. suggestion_r r \<noteq> ''cb'' \<and> 9 / 10 \<le> score_r r)
                  (matches_under demo_limits two_suggestions ''c''))) \<le> 1 \<and>
   map suggestion_r (get_autocomplete_suggestions stable_qsort demo_limits two_suggestions
      (Some ''c'') True 1) = [''ca''] \<and>
   map suggestion_r (get_autocomplete_suggestions reversing_qsort demo_limits two_suggestions
      (Some ''c'') True 1) = [''ca'']"
  by code_simp

text \<open>
  C3, amended. Let a non-empty suggestion be inserted and let no later insertion have the
  same key (the lowercased suggestion with everything but letters and digits deleted; an
  insertion under the same key overwrites the stored string). Then for every prefix of
  the key, \<^verbatim>\<open>get_autocomplete_suggestions\<close> returns an entry with the suggestion (cut to the
  suggestion buffer) and its score whenever \<open>max\<close> is at least the number of all matches
  stored under the prefix, whatever their scores.
\<close>

theorem suggest_includes_stored_suggestion:
  assumes "qsort_spec compare_suggestions qs"
    and "s \<noteq> []"
    and "list_all (\<lambda>(e', sug, sc', src'). case sug of None \<Rightarrow> True
                     | Some t \<Rightarrow> normal_form t \<noteq> normal_form s) later"
    and "prefix p (normal_form s)"
    and "int (length (matches_under lims
            (ac_run later (snd (add_autocomplete_suggestion e (Some s) sc src ctx))) p)) \<le> mx"
  shows "\<exists>r \<in> set (get_autocomplete_suggestions qs lims
                     (ac_run later (snd (add_autocomplete_suggestion e (Some s) sc src ctx)))
                     (Some p) True mx).
           suggestion_r r = copy_trunc (MAX_SUGGESTION_LENGTH lims) s \<and>
           score_r r = (if sc > 0 then sc else calculate_suggestion_score s src)"
proof -
  have "holds_suggestion
      (ctx_root (ac_run later (snd (add_autocomplete_suggestion e (Some s) sc src ctx)))) s
      (if sc > 0 then sc else calculate_suggestion_score s src)"
    using holds_after_insert [OF assms(2)] assms(3) by (rule holds_ac_run)
  from suggest_contains [OF assms(1) this assms(4,5)] show ?thesis .
qed

text \<open>
  Scenario 2 of the specification, with "Cat" for "cat": "Cat" at 0.9, then "car" at 0.5;
  the query "ca" with room for both returns "Cat" and then "car".
\<close>

theorem suggest_includes_stored_suggestion_witness:
  "qsort_spec compare_suggestions stable_qsort \<and> ''Cat'' \<noteq> [] \<and>
   list_all (\<lambda>(e', sug, sc', src'). case sug of None \<Rightarrow> True
               | Some t \<Rightarrow> normal_form t \<noteq> normal_form ''Cat'')
     [(demo_env, Some ''car'', 5 / 10, AC_SOURCE_OTHER)] \<and>
   normal_form ''Cat'' = ''cat'' \<and>
   prefix ''ca'' (normal_form ''Cat'') \<and>
   int (length (matches_under demo_limits cat_car ''ca'')) \<le> 2 \<and>
   map suggestion_r (get_autocomplete_suggestions stable_qsort demo_limits cat_car (Some ''ca'') True 2)
     = [''Cat'', ''car''] \<and>
   (\<exists>r \<in> set (get_autocomplete_suggestions stable_qsort demo_limits cat_car (Some ''ca'') True 2).
      suggestion_r r = copy_trunc (MAX_SUGGESTION_LENGTH demo_limits) ''Cat'' \<and> score_r r = 9 / 10)"
proof -
  have a: "list_all (\<lambda>(e', sug, sc', src'). case sug of None \<Rightarrow> True
               | Some t \<Rightarrow> normal_form t \<noteq> normal_form ''Cat'')
     [(demo_env, Some ''car'', 5 / 10, AC_SOURCE_OTHER)]"
    by code_simp
  have b: "normal_form ''Cat'' = ''cat''"
    by code_simp
  have c: "prefix ''ca'' (normal_form ''Cat'')"
    unfolding b by simp
  have d: "int (length (matches_under demo_limits cat_car ''ca'')) \<le> 2"
    by code_simp
  have f: "map suggestion_r (get_autocomplete_suggestions stable_qsort demo_limits cat_car
      (Some ''ca'') True 2) = [''Cat'', ''car'']"
    by code_simp
  have ne: "''Cat'' \<noteq> []" by simp
  have g: "\<exists>r \<in> set (get_autocomplete_suggestions stable_qsort demo_limits cat_car (Some ''ca'') True 2).
      suggestion_r r = copy_trunc (MAX_SUGGESTION_LENGTH demo_limits) ''Cat'' \<and> score_r r = 9 / 10"
    using suggest_includes_stored_suggestion [OF qsort_spec_suggestions(1) ne a c,
        of demo_limits demo_env "9 / 10" AC_SOURCE_OTHER init_autocomplete_system 2] d
    by (simp add: cat_car_def)
  show ?thesis
    using qsort_spec_suggestions(1) a b c d f g by simp
qed

end
